theory Spec2Isabelle
  imports Complex_Main
begin

section \<open>Values of the program\<close>

text \<open>
  The program is \<^verbatim>\<open>youtube_to_spotify.py\<close>. Its strings are Python \<^verbatim>\<open>str\<close> values,
  sequences of code points. A \<^typ>\<open>string\<close> here is such a sequence with every code
  point below 256: a \<^typ>\<open>char\<close> is read as the code point \<^term>\<open>of_char c :: nat\<close>, and
  \<^const>\<open>length\<close> counts code points as Python's \<^verbatim>\<open>len\<close> does. Code points from 256 on
  (among them the curly quotes U+201C and U+201D of the fifth title pattern) are outside
  the inputs this development speaks about.

  Python floats are IEEE binary64 numbers. A finite binary64 number is a rational, so a
  float is a \<^typ>\<open>rat\<close>, and every arithmetic operation of the source is the exact
  operation followed by rounding to the nearest binary64 number, ties to even
  (\<open>fl\<close> below). The exponent range is not modelled: the values of the program are
  weighted sums of similarity scores between 0 and 100 and never leave it.
\<close>

type_synonym pyfloat = rat

function bitlen :: "int \<Rightarrow> nat" where
  "bitlen i = (if i \<le> 0 then 0 else Suc (bitlen (i div 2)))"
  by pat_completeness auto
termination
  by (relation "measure nat") auto

declare bitlen.simps [simp del]

definition pow2 :: "int \<Rightarrow> rat" where
  "pow2 e = (if 0 \<le> e then 2 ^ nat e else 1 / 2 ^ nat (- e))"

definition ilog2 :: "rat \<Rightarrow> int" where
  \<comment> \<open>for \<open>0 < q\<close>: the exponent \<open>e\<close> with \<open>2 ^ e \<le> q < 2 ^ (e + 1)\<close>\<close>
  "ilog2 q =
     (let (p, d) = quotient_of q;
          e = int (bitlen p) - int (bitlen d)
      in if pow2 e \<le> q then e else e - 1)"

definition round_half_even :: "rat \<Rightarrow> int" where
  "round_half_even q =
     (let f = \<lfloor>q\<rfloor>; d = q - of_int f
      in if d < 1 / 2 then f
         else if 1 / 2 < d then f + 1
         else if even f then f else f + 1)"

definition fl :: "rat \<Rightarrow> pyfloat" where
  \<comment> \<open>the binary64 number nearest to \<open>q\<close>: 53 significant bits, ties to even\<close>
  "fl q =
     (if q = 0 then 0
      else let m = \<bar>q\<bar>; u = pow2 (ilog2 m - 52)
           in sgn q * of_int (round_half_even (m / u)) * u)"

definition fmul :: "pyfloat \<Rightarrow> pyfloat \<Rightarrow> pyfloat" where
  "fmul a b = fl (a * b)"

definition fadd :: "pyfloat \<Rightarrow> pyfloat \<Rightarrow> pyfloat" where
  "fadd a b = fl (a + b)"

definition fdiv :: "pyfloat \<Rightarrow> pyfloat \<Rightarrow> pyfloat" where
  \<comment> \<open>the divisor of the one division in the source is the literal \<^verbatim>\<open>100.0\<close>\<close>
  "fdiv a b = fl (a / b)"

definition float_of_int :: "int \<Rightarrow> pyfloat" where
  "float_of_int i = fl (of_int i)"

section \<open>FuzzyMatcher\<close>

text \<open>
  \<^verbatim>\<open>str.lower()\<close> on code points below 256: the capitals A to Z and the capitals
  U+00C0 to U+00DE except the multiplication sign U+00D7 move up by 32.
\<close>

definition lower_chr :: "char \<Rightarrow> char" where
  "lower_chr c =
     (let n = (of_char c :: nat)
      in if (65 \<le> n \<and> n \<le> 90) \<or> (192 \<le> n \<and> n \<le> 222 \<and> n \<noteq> 215)
         then char_of (n + 32) else c)"

definition lower :: "string \<Rightarrow> string" where
  "lower s = map lower_chr s"

text \<open>
  \<^verbatim>\<open>fuzz.ratio\<close> belongs to the fuzzywuzzy package, not to this program: it is the
  parameter \<open>ratio\<close>, an integer similarity between 0 and 100.

  \<^verbatim>\<open>
  def calculate_match_confidence(original_artist, original_title, spotify_artist, spotify_title):
      if not original_artist or not original_title:
          return 0.0
      artist_score = fuzz.ratio(original_artist.lower(), spotify_artist.lower())
      title_score = fuzz.ratio(original_title.lower(), spotify_title.lower())
      confidence = (title_score * 0.7) + (artist_score * 0.3)
      return confidence / 100.0
  \<close>
\<close>

definition calculate_match_confidence ::
  "(string \<Rightarrow> string \<Rightarrow> int) \<Rightarrow> string \<Rightarrow> string \<Rightarrow> string \<Rightarrow> string \<Rightarrow> pyfloat" where
  "calculate_match_confidence ratio original_artist original_title spotify_artist spotify_title =
     (if original_artist = [] \<or> original_title = [] then 0
      else let artist_score = ratio (lower original_artist) (lower spotify_artist);
               title_score = ratio (lower original_title) (lower spotify_title);
               confidence = fadd (fmul (float_of_int title_score) (fl (7 / 10)))
                                 (fmul (float_of_int artist_score) (fl (3 / 10)))
           in fdiv confidence (fl 100))"

text \<open>
  \<^verbatim>\<open>
  def is_good_match(confidence, threshold=0.5):
      return confidence >= threshold
  \<close>
  The optional argument is \<open>None\<close> when the caller leaves the threshold out.
\<close>

definition is_good_match :: "pyfloat \<Rightarrow> pyfloat option \<Rightarrow> bool" where
  "is_good_match confidence threshold =
     (confidence \<ge> (case threshold of None \<Rightarrow> fl (1 / 2) | Some t \<Rightarrow> t))"

section \<open>Strings and regular expressions\<close>

text \<open>
  \<^verbatim>\<open>str.isspace\<close>, which is also the class \<^verbatim>\<open>\s\<close> of the \<^verbatim>\<open>re\<close> module and what
  \<^verbatim>\<open>str.strip()\<close> removes: below 256 these are the code points 9 to 13, 28 to 32,
  133 and 160.
\<close>

definition isspace :: "char \<Rightarrow> bool" where
  "isspace c =
     (let n = (of_char c :: nat)
      in (9 \<le> n \<and> n \<le> 13) \<or> (28 \<le> n \<and> n \<le> 32) \<or> n = 133 \<or> n = 160)"

definition strip :: "string \<Rightarrow> string" where
  "strip s = rev (dropWhile isspace (rev (dropWhile isspace s)))"

fun startswith :: "string \<Rightarrow> string \<Rightarrow> bool" where
  "startswith s [] = True"
| "startswith [] (p # ps) = False"
| "startswith (c # cs) (p # ps) = (c = p \<and> startswith cs ps)"

definition endswith :: "string \<Rightarrow> string \<Rightarrow> bool" where
  "endswith s suffix = startswith (rev s) (rev suffix)"

definition drop_last :: "nat \<Rightarrow> string \<Rightarrow> string" where
  \<comment> \<open>the slice \<^verbatim>\<open>s[:-n]\<close>, which is empty for \<open>n = 0\<close>\<close>
  "drop_last n s = (if n = 0 then [] else take (length s - n) s)"

text \<open>
  The regular expressions of the program are sequences of the items below; every
  repetition in them is over a single character class. \<open>Few\<close> and \<open>Few1\<close> are the
  lazy \<^verbatim>\<open>*?\<close> and \<^verbatim>\<open>+?\<close>, \<open>Many\<close> and \<open>Many1\<close> the greedy \<^verbatim>\<open>*\<close> and \<^verbatim>\<open>+\<close>. \<open>Alt\<close> is
  an alternation of literal texts, tried in order; its flag says whether case is
  ignored (all letters of the patterns are inside an \<open>Alt\<close>). \<open>Eol\<close> is \<^verbatim>\<open>$\<close>.
\<close>

datatype cls = Dot | Space | Chr char | IdChar

datatype item = Single cls | Many cls | Many1 cls | Few cls | Few1 cls
  | Alt bool "string list" | Eol

fun cls_ok :: "cls \<Rightarrow> char \<Rightarrow> bool" where
  "cls_ok Dot c = (c \<noteq> CHR 0x0A)"
| "cls_ok Space c = isspace c"
| "cls_ok (Chr d) c = (c = d)"
| "cls_ok IdChar c =
     (let n = (of_char c :: nat)
      in (97 \<le> n \<and> n \<le> 122) \<or> (65 \<le> n \<and> n \<le> 90) \<or> (48 \<le> n \<and> n \<le> 57)
         \<or> n = 95 \<or> n = 45)"

definition chr_eq :: "bool \<Rightarrow> char \<Rightarrow> char \<Rightarrow> bool" where
  "chr_eq ic p c = (if ic then lower_chr c = lower_chr p else c = p)"

fun lit_prefix :: "bool \<Rightarrow> string \<Rightarrow> string \<Rightarrow> bool" where
  "lit_prefix ic [] s = True"
| "lit_prefix ic (p # ps) [] = False"
| "lit_prefix ic (p # ps) (c # cs) = (chr_eq ic p c \<and> lit_prefix ic ps cs)"

text \<open>
  The matcher backtracks as \<^verbatim>\<open>re\<close> does. Each helper takes the matcher of the rest of
  the pattern as \<open>cont\<close> and returns the text its own item consumed together with the
  result of \<open>cont\<close>. A lazy repetition asks \<open>cont\<close> first and takes one more character
  only when \<open>cont\<close> fails; a greedy one takes characters first and gives them back one
  at a time.
\<close>

fun lazy_rep :: "cls \<Rightarrow> (string \<Rightarrow> 'a option) \<Rightarrow> string \<Rightarrow> string \<Rightarrow> (string \<times> 'a) option" where
  "lazy_rep k cont acc [] = (case cont [] of Some r \<Rightarrow> Some (acc, r) | None \<Rightarrow> None)"
| "lazy_rep k cont acc (c # cs) =
     (case cont (c # cs) of
        Some r \<Rightarrow> Some (acc, r)
      | None \<Rightarrow> if cls_ok k c then lazy_rep k cont (acc @ [c]) cs else None)"

fun greedy_rep :: "cls \<Rightarrow> (string \<Rightarrow> 'a option) \<Rightarrow> string \<Rightarrow> string \<Rightarrow> (string \<times> 'a) option" where
  "greedy_rep k cont acc [] = (case cont [] of Some r \<Rightarrow> Some (acc, r) | None \<Rightarrow> None)"
| "greedy_rep k cont acc (c # cs) =
     (case (if cls_ok k c then greedy_rep k cont (acc @ [c]) cs else None) of
        Some r \<Rightarrow> Some r
      | None \<Rightarrow> (case cont (c # cs) of Some r \<Rightarrow> Some (acc, r) | None \<Rightarrow> None))"

fun try_alts :: "bool \<Rightarrow> string list \<Rightarrow> (string \<Rightarrow> 'a option) \<Rightarrow> string \<Rightarrow> (string \<times> 'a) option" where
  "try_alts ic [] cont s = None"
| "try_alts ic (a # as) cont s =
     (case (if lit_prefix ic a s then cont (drop (length a) s) else None) of
        Some r \<Rightarrow> Some (take (length a) s, r)
      | None \<Rightarrow> try_alts ic as cont s)"

definition first_char :: "cls \<Rightarrow> (string \<Rightarrow> string \<Rightarrow> 'a option) \<Rightarrow> string \<Rightarrow> 'a option" where
  "first_char k f s = (case s of [] \<Rightarrow> None | c # cs \<Rightarrow> if cls_ok k c then f [c] cs else None)"

definition cons_seg :: "(string \<times> string list) option \<Rightarrow> string list option" where
  "cons_seg r = map_option (\<lambda>(seg, segs). seg # segs) r"

text \<open>
  \<open>rmatch its s\<close> matches the items \<open>its\<close> at the start of \<open>s\<close> and returns, for a match,
  the text consumed by each item, in order.
\<close>

primrec rmatch :: "item list \<Rightarrow> string \<Rightarrow> string list option" where
  "rmatch [] s = Some []"
| "rmatch (it # its) s =
     (case it of
        Single k \<Rightarrow> first_char k (\<lambda>seg rest. map_option ((#) seg) (rmatch its rest)) s
      | Many k \<Rightarrow> cons_seg (greedy_rep k (rmatch its) [] s)
      | Many1 k \<Rightarrow> first_char k (\<lambda>seg rest. cons_seg (greedy_rep k (rmatch its) seg rest)) s
      | Few k \<Rightarrow> cons_seg (lazy_rep k (rmatch its) [] s)
      | Few1 k \<Rightarrow> first_char k (\<lambda>seg rest. cons_seg (lazy_rep k (rmatch its) seg rest)) s
      | Alt ic alts \<Rightarrow> cons_seg (try_alts ic alts (rmatch its) s)
      | Eol \<Rightarrow> (if s = [] \<or> s = [CHR 0x0A] then map_option ((#) []) (rmatch its s) else None))"

text \<open>
  A compiled pattern is its items and the positions of the items that are its capture
  groups. \<^verbatim>\<open>re.match\<close> matches at the start of the text and \<open>groups\<close> are the captured
  texts.
\<close>

type_synonym regex = "item list \<times> nat list"

definition re_match :: "regex \<Rightarrow> string \<Rightarrow> string list option" where
  "re_match p s = map_option (\<lambda>segs. map (\<lambda>i. segs ! i) (snd p)) (rmatch (fst p) s)"

definition match_len :: "item list \<Rightarrow> string \<Rightarrow> nat option" where
  "match_len its s = map_option (\<lambda>segs. length (concat segs)) (rmatch its s)"

text \<open>
  \<^verbatim>\<open>re.sub(pattern, repl, text)\<close>: every leftmost match, found from left to right without
  overlap, is replaced by \<open>repl\<close>. No pattern of the program matches the empty text; the
  branches for an empty match follow Python 3.7 and later.
\<close>

function re_sub :: "item list \<Rightarrow> string \<Rightarrow> string \<Rightarrow> string" where
  "re_sub its repl [] = (case match_len its [] of None \<Rightarrow> [] | Some n \<Rightarrow> repl)"
| "re_sub its repl (c # cs) =
     (case match_len its (c # cs) of
        None \<Rightarrow> c # re_sub its repl cs
      | Some 0 \<Rightarrow> repl @ c # re_sub its repl cs
      | Some (Suc n) \<Rightarrow> repl @ re_sub its repl (drop n cs))"
  by pat_completeness auto
termination
  by (relation "measure (\<lambda>(its, repl, s). length s)") auto

text \<open>\<^verbatim>\<open>re.search\<close>: the match at the leftmost position that has one.\<close>

fun re_search :: "regex \<Rightarrow> string \<Rightarrow> string list option" where
  "re_search p [] = re_match p []"
| "re_search p (c # cs) =
     (case re_match p (c # cs) of Some gs \<Rightarrow> Some gs | None \<Rightarrow> re_search p cs)"

section \<open>TitleParser\<close>

text \<open>
  \<^verbatim>\<open>
  self.patterns = [
      r'^(.+?)\s*-\s*(.+)$',                   # Artist - Song
      r'^(.+?)\s*:\s*(.+)$',                   # Artist: Song
      r'^(.+?)\s+by\s+(.+)$',                  # Song by Artist
      r'^(.+?)\s*\|\s*(.+)$',                  # Artist | Song
      r'^(.+?)\s*["\u201c](.+?)["\u201d]$',    # Artist "Song"
  ]
  \<close>
  They are matched with \<^verbatim>\<open>re.IGNORECASE\<close>, which concerns the letters of \<^verbatim>\<open>by\<close> only.
  Below code point 256 each quote class of the fifth pattern holds the ASCII quote,
  \<open>CHR 0x22\<close>, alone.
\<close>

definition sep_pattern :: "char \<Rightarrow> regex" where
  "sep_pattern d = ([Few1 Dot, Many Space, Single (Chr d), Many Space, Many1 Dot, Eol], [0, 4])"

definition by_pattern :: regex where
  "by_pattern = ([Few1 Dot, Many1 Space, Alt True [''by''], Many1 Space, Many1 Dot, Eol], [0, 4])"

definition quote_pattern :: regex where
  "quote_pattern =
     ([Few1 Dot, Many Space, Single (Chr (CHR 0x22)), Few1 Dot, Single (Chr (CHR 0x22)), Eol],
      [0, 3])"

definition patterns :: "regex list" where
  "patterns = [sep_pattern CHR ''-'', sep_pattern CHR '':'', by_pattern,
               sep_pattern CHR ''|'', quote_pattern]"

definition has_by :: "regex \<Rightarrow> bool" where
  \<comment> \<open>\<^verbatim>\<open>'by' in pattern\<close>: the text of a pattern holds \<^verbatim>\<open>by\<close> exactly when it has that literal\<close>
  "has_by p = (Alt True [''by''] \<in> set (fst p))"

text \<open>
  \<^verbatim>\<open>
  def clean_text(self, text):
      text = re.sub(r'\[.*?\]', '', text)
      text = re.sub(r'\(.*?\)', '', text)
      text = re.sub(r'(feat\.|ft\.|featuring)\s+.+', '', text, flags=re.IGNORECASE)
      text = re.sub(r'\s+', ' ', text).strip()
      return text
  \<close>
\<close>

definition clean_text :: "string \<Rightarrow> string" where
  "clean_text text0 =
     (let text1 = re_sub [Single (Chr CHR ''[''), Few Dot, Single (Chr CHR '']'')] [] text0;
          text2 = re_sub [Single (Chr CHR ''(''), Few Dot, Single (Chr CHR '')'')] [] text1;
          text3 = re_sub [Alt True [''feat.'', ''ft.'', ''featuring''], Many1 Space, Many1 Dot]
                    [] text2
      in strip (re_sub [Many1 Space] '' '' text3))"

text \<open>
  \<^verbatim>\<open>
  def parse_title(self, title):
      title = self.clean_text(title)
      for pattern in self.patterns:
          match = re.match(pattern, title, re.IGNORECASE)
          if match:
              groups = match.groups()
              if len(groups) == 2:
                  if 'by' in pattern:
                      return groups[1].strip(), groups[0].strip()
                  else:
                      return groups[0].strip(), groups[1].strip()
      return "", title
  \<close>
\<close>

fun try_patterns :: "regex list \<Rightarrow> string \<Rightarrow> (string \<times> string) option" where
  "try_patterns [] t = None"
| "try_patterns (p # ps) t =
     (case re_match p t of
        Some [g0, g1] \<Rightarrow> if has_by p then Some (strip g1, strip g0) else Some (strip g0, strip g1)
      | _ \<Rightarrow> try_patterns ps t)"

definition parse_title :: "string \<Rightarrow> string \<times> string" where
  "parse_title label =
     (let t = clean_text label
      in case try_patterns patterns t of Some r \<Rightarrow> r | None \<Rightarrow> ([], t))"

section \<open>Channel names\<close>

text \<open>
  \<^verbatim>\<open>
  def _clean_channel_name(self, channel):
      if not channel:
          return ""
      suffixes_to_remove = ['Official', 'OFFICIAL', 'Records', 'RECORDS', 'Music', 'MUSIC',
                            'Channel', 'CHANNEL', 'TV', 'VEVO', 'vevo']
      cleaned = channel
      for suffix in suffixes_to_remove:
          if cleaned.endswith(f' {suffix}'):
              cleaned = cleaned[:-len(f' {suffix}')]
          elif cleaned.endswith(suffix):
              cleaned = cleaned[:-len(suffix)]
      return cleaned.strip()
  \<close>
\<close>

definition suffixes_to_remove :: "string list" where
  "suffixes_to_remove = [''Official'', ''OFFICIAL'', ''Records'', ''RECORDS'', ''Music'',
     ''MUSIC'', ''Channel'', ''CHANNEL'', ''TV'', ''VEVO'', ''vevo'']"

definition remove_suffix :: "string \<Rightarrow> string \<Rightarrow> string" where
  "remove_suffix cleaned suffix =
     (if endswith cleaned ('' '' @ suffix) then drop_last (length ('' '' @ suffix)) cleaned
      else if endswith cleaned suffix then drop_last (length suffix) cleaned
      else cleaned)"

definition clean_channel_name :: "string \<Rightarrow> string" where
  "clean_channel_name channel =
     (if channel = [] then [] else strip (foldl remove_suffix channel suffixes_to_remove))"

section \<open>Songs, statistics and the Spotify service\<close>

text \<open>
  The dataclasses \<^verbatim>\<open>Song\<close> and \<^verbatim>\<open>MigrationStats\<close>, with the defaults of the source in
  \<open>new_song\<close> and \<open>new_stats\<close>. The two wall-clock fields \<^verbatim>\<open>start_time\<close> and
  \<^verbatim>\<open>end_time\<close> of the statistics are left out.
\<close>

record song =
  original_title :: string
  channel_name :: string
  artist :: string
  title :: string
  spotify_uri :: string
  match_confidence :: pyfloat
  error :: string
  found :: bool

definition new_song :: "string \<Rightarrow> string \<Rightarrow> song" where
  "new_song t ch = \<lparr>original_title = t, channel_name = ch, artist = [], title = [],
     spotify_uri = [], match_confidence = 0, error = [], found = False\<rparr>"

record migration_stats =
  total_songs :: nat
  successful_matches :: nat
  not_found :: nat
  errors :: nat

definition new_stats :: migration_stats where
  "new_stats = \<lparr>total_songs = 0, successful_matches = 0, not_found = 0, errors = 0\<rparr>"

text \<open>
  A track as the search of the Spotify Web API returns it; the program reads the names
  of its artists, its name and its URI.
\<close>

record track =
  artist_names :: "string list"
  track_name :: string
  track_uri :: string

text \<open>
  The network is outside the program. A call to it takes the state \<open>'w\<close> of the outside
  world and returns, with the next state, either \<open>Inl msg\<close>, an exception whose text
  \<^verbatim>\<open>str(e)\<close> is \<open>msg\<close>, or \<open>Inr\<close> of its result. The calls are
  \<^item> \<open>fuzz_ratio\<close>: \<^verbatim>\<open>fuzz.ratio\<close>, a pure function;
  \<^item> \<open>search_with_query\<close>: \<^verbatim>\<open>SpotifyManager._search_with_query\<close>, where \<open>None\<close>
    stands for every result that \<^verbatim>\<open>if result:\<close> takes as false;
  \<^item> \<open>playlist_videos\<close>: \<^verbatim>\<open>YouTubeExtractor.get_playlist_videos\<close>, the pairs of
    title and channel;
  \<^item> \<open>create_playlist\<close>: \<^verbatim>\<open>SpotifyManager.create_playlist\<close>, given the name, the
    number of matches that the description mentions, and the visibility;
  \<^item> \<open>post_tracks\<close>: the request
    \<^verbatim>\<open>self._make_request('POST', f'playlists/{playlist_id}/tracks', json=data)\<close>,
    with \<open>True\<close> for a result that \<^verbatim>\<open>if not result:\<close> lets pass.
\<close>

type_synonym ('a, 'w) call = "'w \<Rightarrow> (string + 'a) \<times> 'w"

record 'w services =
  fuzz_ratio :: "string \<Rightarrow> string \<Rightarrow> int"
  search_with_query :: "string \<Rightarrow> (track option, 'w) call"
  playlist_videos :: "string \<Rightarrow> ((string \<times> string) list, 'w) call"
  create_playlist :: "string \<Rightarrow> nat \<Rightarrow> bool \<Rightarrow> (string option, 'w) call"
  post_tracks :: "string \<Rightarrow> string list \<Rightarrow> (bool, 'w) call"

definition skip :: "('a option, 'w) call" where
  "skip w = (Inr None, w)"

definition or_else :: "('a option, 'w) call \<Rightarrow> ('a option, 'w) call \<Rightarrow> ('a option, 'w) call" where
  \<comment> \<open>\<^verbatim>\<open>result = ...; if result: return result\<close>, then the next strategy\<close>
  "or_else f g w = (case f w of (Inr None, w') \<Rightarrow> g w' | r \<Rightarrow> r)"

definition dq :: string where
  "dq = [CHR 0x22]"

text \<open>
  \<^verbatim>\<open>
  def search_track(self, artist, title):
      if artist and title:
          query = f'artist:"{artist}" track:"{title}"'
          result = self._search_with_query(query)
          if result: return result
      if artist and title:
          query = f'"{artist}" "{title}"'
          result = self._search_with_query(query)
          if result: return result
      if title:
          query = f'"{title}"'
          result = self._search_with_query(query)
          if result: return result
      return None
  \<close>
\<close>

definition search_track :: "'w services \<Rightarrow> string \<Rightarrow> string \<Rightarrow> (track option, 'w) call" where
  "search_track sv a t =
     or_else (if a \<noteq> [] \<and> t \<noteq> []
              then search_with_query sv (''artist:'' @ dq @ a @ dq @ '' track:'' @ dq @ t @ dq)
              else skip)
    (or_else (if a \<noteq> [] \<and> t \<noteq> []
              then search_with_query sv (dq @ a @ dq @ '' '' @ dq @ t @ dq)
              else skip)
             (if t \<noteq> [] then search_with_query sv (dq @ t @ dq) else skip))"

text \<open>
  \<^verbatim>\<open>
  def _enhanced_spotify_search(self, artist, title, channel):
      if artist and title:
          result = self.spotify.search_track(artist, title)
          if result: return result
      if channel and channel != artist and title:
          clean_channel = self._clean_channel_name(channel)
          if clean_channel:
              result = self.spotify.search_track(clean_channel, title)
              if result: return result
      if title:
          result = self.spotify.search_track("", title)
          if result: return result
      return None
  \<close>
\<close>

definition enhanced_spotify_search ::
  "'w services \<Rightarrow> string \<Rightarrow> string \<Rightarrow> string \<Rightarrow> (track option, 'w) call" where
  "enhanced_spotify_search sv a t channel =
     or_else (if a \<noteq> [] \<and> t \<noteq> [] then search_track sv a t else skip)
    (or_else (if channel \<noteq> [] \<and> channel \<noteq> a \<and> t \<noteq> []
              then (let clean_channel = clean_channel_name channel
                    in if clean_channel \<noteq> [] then search_track sv clean_channel t else skip)
              else skip)
             (if t \<noteq> [] then search_track sv [] t else skip))"

text \<open>
  \<^verbatim>\<open>f"{confidence:.2f}"\<close>: the decimal numeral with two digits after the point that is
  nearest to the float, ties to even. (The sign of a zero is not modelled.)
\<close>

definition digit_chr :: "nat \<Rightarrow> char" where
  "digit_chr d = char_of (48 + d)"

function show_nat :: "nat \<Rightarrow> string" where
  "show_nat n = (if n < 10 then [digit_chr n] else show_nat (n div 10) @ [digit_chr (n mod 10)])"
  by pat_completeness auto
termination
  by (relation "measure id") auto

declare show_nat.simps [simp del]

definition format_2f :: "pyfloat \<Rightarrow> string" where
  "format_2f x =
     (let n = nat (round_half_even (\<bar>x\<bar> * 100))
      in (if x < 0 then ''-'' else []) @ show_nat (n div 100) @ ''.''
         @ [digit_chr (n mod 100 div 10), digit_chr (n mod 10)])"

section \<open>PlaylistMigrator\<close>

text \<open>
  \<^verbatim>\<open>
  def _process_song(self, video_data):
      title = video_data['title']
      channel = video_data['channel']
      song = Song(original_title=title, channel_name=channel)
      try:
          parsed_artist, song_title = self.parser.parse_title(title)
          # Use channel name as artist if no artist was parsed from title
          if not parsed_artist and channel:
              clean_channel = self._clean_channel_name(channel)
              artist = clean_channel
          else:
              artist = parsed_artist
          song.artist = artist
          song.title = song_title
          spotify_track = self._enhanced_spotify_search(artist, song_title, channel)
          if spotify_track:
              spotify_artist = spotify_track['artists'][0]['name']
              spotify_title = spotify_track['name']
              confidence = self.matcher.calculate_match_confidence(
                  artist, song_title, spotify_artist, spotify_title)
              song.match_confidence = confidence
              song.spotify_uri = spotify_track['uri']
              song.found = self.matcher.is_good_match(confidence)
              if not song.found:
                  song.error = f"Low confidence match ({confidence:.2f})"
          else:
              song.error = "No matches found on Spotify"
      except Exception as e:
          song.error = str(e)
          logger.error(f"Error processing '{title}': {e}")
      return song
  \<close>
  An exception of the search leaves the song as it is at that point and sets its error.
  So does \<^verbatim>\<open>spotify_track['artists'][0]\<close> on a track without artists, an IndexError.
\<close>

definition working_artist :: "string \<Rightarrow> string \<Rightarrow> string" where
  "working_artist parsed_artist channel =
     (if parsed_artist = [] \<and> channel \<noteq> [] then clean_channel_name channel else parsed_artist)"

definition score_song :: "'w services \<Rightarrow> song \<Rightarrow> track \<Rightarrow> song" where
  "score_song sv s tr =
     (case artist_names tr of
        [] \<Rightarrow> s\<lparr>error := ''list index out of range''\<rparr>
      | spotify_artist # others \<Rightarrow>
          let confidence = calculate_match_confidence (fuzz_ratio sv) (artist s) (title s)
                             spotify_artist (track_name tr);
              s1 = s\<lparr>match_confidence := confidence, spotify_uri := track_uri tr,
                     found := is_good_match confidence None\<rparr>
          in if \<not> found s1
             then s1\<lparr>error := ''Low confidence match ('' @ format_2f confidence @ '')''\<rparr>
             else s1)"

definition process_song :: "'w services \<Rightarrow> string \<times> string \<Rightarrow> 'w \<Rightarrow> song \<times> 'w" where
  "process_song sv video_data w =
     (let (t, channel) = video_data;
          (parsed_artist, song_title) = parse_title t;
          a = working_artist parsed_artist channel;
          s = (new_song t channel)\<lparr>artist := a, title := song_title\<rparr>
      in case enhanced_spotify_search sv a song_title channel w of
           (Inl e, w') \<Rightarrow> (s\<lparr>error := e\<rparr>, w')
         | (Inr None, w') \<Rightarrow> (s\<lparr>error := ''No matches found on Spotify''\<rparr>, w')
         | (Inr (Some tr), w') \<Rightarrow> (score_song sv s tr, w'))"

text \<open>
  The statistics update of the loop in \<^verbatim>\<open>migrate_playlist\<close>:
  \<^verbatim>\<open>
  if song.found:
      stats.successful_matches += 1
  elif song.error:
      stats.errors += 1
  else:
      stats.not_found += 1
  \<close>
\<close>

definition count_song :: "song \<Rightarrow> migration_stats \<Rightarrow> migration_stats" where
  "count_song s stats =
     (if found s then stats\<lparr>successful_matches := successful_matches stats + 1\<rparr>
      else if error s \<noteq> [] then stats\<lparr>errors := errors stats + 1\<rparr>
      else stats\<lparr>not_found := not_found stats + 1\<rparr>)"

fun process_all ::
  "'w services \<Rightarrow> (string \<times> string) list \<Rightarrow> migration_stats \<Rightarrow> 'w
   \<Rightarrow> song list \<times> migration_stats \<times> 'w" where
  "process_all sv [] stats w = ([], stats, w)"
| "process_all sv (video_data # rest) stats w =
     (let (s, w1) = process_song sv video_data w;
          (songs, stats2, w2) = process_all sv rest (count_song s stats) w1
      in (s # songs, stats2, w2))"

definition successful_tracks :: "song list \<Rightarrow> string list" where
  \<comment> \<open>\<^verbatim>\<open>[song.spotify_uri for song in songs if song.found]\<close>\<close>
  "successful_tracks songs = map spotify_uri (filter found songs)"

text \<open>
  \<^verbatim>\<open>
  def add_tracks_to_playlist(self, playlist_id, track_uris):
      batch_size = 100
      for i in range(0, len(track_uris), batch_size):
          batch = track_uris[i:i + batch_size]
          data = {'uris': batch}
          result = self._make_request('POST', f'playlists/{playlist_id}/tracks', json=data)
          if not result:
              return False
          time.sleep(0.1)
      return True
  \<close>
  Next to its result the model returns the trace of the requests it made: each batch
  with what the request answered.
\<close>

function add_tracks_from ::
  "'w services \<Rightarrow> string \<Rightarrow> string list \<Rightarrow> nat \<Rightarrow> 'w
   \<Rightarrow> (string + bool) \<times> (string list \<times> (string + bool)) list \<times> 'w" where
  "add_tracks_from sv playlist_id track_uris i w =
     (if i < length track_uris
      then let batch = take 100 (drop i track_uris);
               (result, w1) = post_tracks sv playlist_id batch w
           in if result = Inr True
              then let (r, trace, w2) = add_tracks_from sv playlist_id track_uris (i + 100) w1
                   in (r, (batch, result) # trace, w2)
              else (result, [(batch, result)], w1)
      else (Inr True, [], w))"
  by pat_completeness auto
termination
  by (relation "measure (\<lambda>(sv, playlist_id, track_uris, i, w). length track_uris - i)") auto

declare add_tracks_from.simps [simp del]

definition add_tracks_to_playlist ::
  "'w services \<Rightarrow> string \<Rightarrow> string list \<Rightarrow> 'w
   \<Rightarrow> (string + bool) \<times> (string list \<times> (string + bool)) list \<times> 'w" where
  "add_tracks_to_playlist sv playlist_id track_uris w = add_tracks_from sv playlist_id track_uris 0 w"

text \<open>
  \<^verbatim>\<open>
  def extract_playlist_id(self, url):
      patterns = [r'list=([a-zA-Z0-9_-]+)', r'playlist\?list=([a-zA-Z0-9_-]+)']
      for pattern in patterns:
          match = re.search(pattern, url)
          if match:
              return match.group(1)
      return None
  \<close>
\<close>

fun first_group :: "regex list \<Rightarrow> string \<Rightarrow> string option" where
  "first_group [] url = None"
| "first_group (p # ps) url =
     (case re_search p url of Some (g # gs) \<Rightarrow> Some g | _ \<Rightarrow> first_group ps url)"

definition extract_playlist_id :: "string \<Rightarrow> string option" where
  "extract_playlist_id url =
     first_group [([Alt False [''list=''], Many1 IdChar], [1]),
                  ([Alt False [''playlist?list=''], Many1 IdChar], [1])] url"

text \<open>
  \<^verbatim>\<open>migrate_playlist\<close>. A missing playlist id and an empty playlist raise ValueError
  inside the \<^verbatim>\<open>try\<close>, and so may the calls to the network; the handler prints the
  exception and the function returns the songs and statistics it has by then. The
  progress output is not modelled, nor an interrupt from the keyboard, with which the
  function does not return.
  \<^verbatim>\<open>
  stats = MigrationStats(start_time=datetime.now())
  songs = []
  try:
      playlist_id = self.youtube.extract_playlist_id(youtube_url)
      if not playlist_id:
          raise ValueError("Invalid YouTube playlist URL")
      video_titles = self.youtube.get_playlist_videos(playlist_id)
      stats.total_songs = len(video_titles)
      if not video_titles:
          raise ValueError("No videos found in playlist")
      for i, video_data in enumerate(video_titles, 1):
          song = self._process_song(video_data)
          songs.append(song)
          (the statistics update)
      successful_tracks = [song.spotify_uri for song in songs if song.found]
      if successful_tracks:
          description = f"Migrated from YouTube playlist ... {stats.successful_matches} tracks"
          playlist_id = self.spotify.create_playlist(playlist_name, description, public)
          if playlist_id:
              success = self.spotify.add_tracks_to_playlist(playlist_id, successful_tracks)
  except Exception as e:
      logger.error(f"Migration failed: {e}")
  finally:
      stats.end_time = datetime.now()
  return songs, stats
  \<close>
\<close>

definition commit_tracks :: "'w services \<Rightarrow> string \<Rightarrow> bool \<Rightarrow> song list \<Rightarrow> migration_stats \<Rightarrow> 'w \<Rightarrow> 'w" where
  "commit_tracks sv playlist_name public songs stats w =
     (if successful_tracks songs \<noteq> []
      then case create_playlist sv playlist_name (successful_matches stats) public w of
             (Inr (Some playlist_id), w1) \<Rightarrow>
               (if playlist_id \<noteq> []
                then snd (snd (add_tracks_to_playlist sv playlist_id (successful_tracks songs) w1))
                else w1)
           | (r, w1) \<Rightarrow> w1
      else w)"

definition migrate_playlist ::
  "'w services \<Rightarrow> string \<Rightarrow> string \<Rightarrow> bool \<Rightarrow> 'w \<Rightarrow> (song list \<times> migration_stats) \<times> 'w" where
  "migrate_playlist sv youtube_url playlist_name public w =
     (case extract_playlist_id youtube_url of
        None \<Rightarrow> (([], new_stats), w)
      | Some playlist_id \<Rightarrow>
          if playlist_id = [] then (([], new_stats), w)
          else case playlist_videos sv playlist_id w of
            (Inl e, w1) \<Rightarrow> (([], new_stats), w1)
          | (Inr video_titles, w1) \<Rightarrow>
              let stats = new_stats\<lparr>total_songs := length video_titles\<rparr>
              in if video_titles = [] then (([], stats), w1)
                 else let (songs, stats2, w2) = process_all sv video_titles stats w1
                      in ((songs, stats2), commit_tracks sv playlist_name public songs stats2 w2))"

section \<open>Example services\<close>

text \<open>
  Services for the concrete runs below. Their world is \<^typ>\<open>unit\<close>. \<open>same_ratio\<close>
  agrees with \<^verbatim>\<open>fuzz.ratio\<close> wherever it is used on equal texts, which score 100.
\<close>

definition same_ratio :: "string \<Rightarrow> string \<Rightarrow> int" where
  "same_ratio a b = (if a = b then 100 else 0)"

definition answer :: "'a \<Rightarrow> ('a, unit) call" where
  "answer x w = (Inr x, w)"

definition raising :: "string \<Rightarrow> ('a, unit) call" where
  "raising msg w = (Inl msg, w)"

definition hey_jude :: track where
  "hey_jude = \<lparr>artist_names = [''The Beatles''], track_name = ''Hey Jude'',
     track_uri = ''spotify:track:1''\<rparr>"

definition services_with :: "(track option, unit) call \<Rightarrow> unit services" where
  "services_with search =
     \<lparr>fuzz_ratio = same_ratio,
      search_with_query = (\<lambda>q. search),
      playlist_videos = (\<lambda>p. answer [(''Hey Jude'', ''The Beatles'')]),
      create_playlist = (\<lambda>n k b. answer (Some ''playlist'')),
      post_tracks = (\<lambda>p batch. answer True)\<rparr>"

section \<open>Predicates of the proofs\<close>

fun seg_fits :: "item \<Rightarrow> string \<Rightarrow> bool" where
  "seg_fits (Single k) seg = (length seg = 1)"
| "seg_fits (Many1 k) seg = (seg \<noteq> [])"
| "seg_fits (Few1 k) seg = (seg \<noteq> [])"
| "seg_fits Eol seg = (seg = [])"
| "seg_fits it seg = True"

definition at_end :: "string \<Rightarrow> bool" where
  "at_end rest = (rest = [] \<or> rest = [CHR 0x0A])"

section \<open>Properties\<close>

subsection \<open>Stripping\<close>

lemma dropWhile_rev_keeps_hd:
  assumes "xs \<noteq> []" "\<not> P (hd xs)"
  shows "dropWhile P (rev xs) \<noteq> [] \<and> last (dropWhile P (rev xs)) = hd xs"
proof -
  obtain x xs' where xs: "xs = x # xs'" using assms(1) by (cases xs) auto
  have px: "\<not> P x" using assms(2) xs by simp
  show ?thesis
  proof (cases "\<forall>y\<in>set (rev xs'). P y")
    case True
    then have "dropWhile P (rev xs' @ [x]) = dropWhile P [x]"
      by (intro dropWhile_append2) auto
    then show ?thesis using px xs by simp
  next
    case False
    then obtain y where y: "y \<in> set (rev xs')" "\<not> P y" by blast
    have "dropWhile P (rev xs' @ [x]) = dropWhile P (rev xs') @ [x]"
      using y by (rule dropWhile_append1)
    then show ?thesis using xs by simp
  qed
qed

lemma strip_ends:
  assumes "strip s \<noteq> []"
  shows "\<not> isspace (hd (strip s)) \<and> \<not> isspace (last (strip s))"
proof -
  let ?t = "dropWhile isspace s"
  have t: "?t \<noteq> []"
  proof
    assume a: "?t = []"
    have "strip s = rev (dropWhile isspace (rev ?t))" by (simp only: strip_def)
    also have "\<dots> = []" by (simp only: a rev.simps dropWhile.simps)
    finally show False using assms by simp
  qed
  then have ht: "\<not> isspace (hd ?t)" by (rule hd_dropWhile)
  have d: "dropWhile isspace (rev ?t) \<noteq> []" "last (dropWhile isspace (rev ?t)) = hd ?t"
    using dropWhile_rev_keeps_hd [of ?t isspace] t ht by auto
  have "hd (strip s) = hd ?t"
    using d by (simp add: strip_def hd_rev)
  moreover have "last (strip s) = hd (dropWhile isspace (rev ?t))"
    using d by (simp add: strip_def last_rev)
  moreover have "\<not> isspace (hd (dropWhile isspace (rev ?t)))"
    using d(1) by (rule hd_dropWhile)
  ultimately show ?thesis using ht by simp
qed

lemma strip_fixed:
  assumes "s = [] \<or> (\<not> isspace (hd s) \<and> \<not> isspace (last s))"
  shows "strip s = s"
proof (cases "s = []")
  case True
  then show ?thesis by (simp add: strip_def)
next
  case False
  then have h: "\<not> isspace (hd s)" "\<not> isspace (last s)" using assms by auto
  have "dropWhile isspace s = s" using h(1) False by (cases s) auto
  moreover have "dropWhile isspace (rev s) = rev s"
    using h(2) False by (cases "rev s") (auto simp: last_rev [symmetric] hd_rev)
  ultimately show ?thesis by (simp add: strip_def)
qed

lemma strip_idem: "strip (strip s) = strip s"
  using strip_ends [of s] strip_fixed [of "strip s"] by blast

lemma strip_self_ends: "strip s = s \<Longrightarrow> s \<noteq> [] \<Longrightarrow> \<not> isspace (hd s) \<and> \<not> isspace (last s)"
  using strip_ends [of s] by simp

lemma strip_nonempty: "c \<in> set g \<Longrightarrow> \<not> isspace c \<Longrightarrow> strip g \<noteq> []"
proof -
  assume c: "c \<in> set g" "\<not> isspace c"
  let ?t = "dropWhile isspace g"
  have t: "?t \<noteq> []" using c by auto
  then have ht: "\<not> isspace (hd ?t)" by (rule hd_dropWhile)
  show ?thesis using dropWhile_rev_keeps_hd [of ?t isspace] t ht by (simp add: strip_def)
qed

subsection \<open>The matcher consumes the text from left to right\<close>

lemma lazy_rep_sound:
  "lazy_rep k cont acc s = Some (seg, r) \<Longrightarrow>
   \<exists>taken rest. seg = acc @ taken \<and> s = taken @ rest \<and> cont rest = Some r"
proof (induction s arbitrary: acc)
  case Nil
  then show ?case by (auto split: option.splits)
next
  case (Cons c cs)
  show ?case
  proof (cases "cont (c # cs)")
    case (Some r')
    with Cons.prems show ?thesis by auto
  next
    case None
    with Cons.prems have ok: "cls_ok k c" and rec: "lazy_rep k cont (acc @ [c]) cs = Some (seg, r)"
      by (auto split: if_splits)
    from Cons.IH [OF rec] obtain taken rest where
      "seg = (acc @ [c]) @ taken" "cs = taken @ rest" "cont rest = Some r" by blast
    then have "seg = acc @ (c # taken) \<and> c # cs = (c # taken) @ rest \<and> cont rest = Some r"
      by simp
    then show ?thesis by blast
  qed
qed

lemma greedy_rep_sound:
  "greedy_rep k cont acc s = Some (seg, r) \<Longrightarrow>
   \<exists>taken rest. seg = acc @ taken \<and> s = taken @ rest \<and> cont rest = Some r"
proof (induction s arbitrary: acc)
  case Nil
  then show ?case by (auto split: option.splits)
next
  case (Cons c cs)
  show ?case
  proof (cases "cls_ok k c \<and> greedy_rep k cont (acc @ [c]) cs \<noteq> None")
    case True
    with Cons.prems have rec: "greedy_rep k cont (acc @ [c]) cs = Some (seg, r)"
      by auto
    from Cons.IH [OF rec] obtain taken rest where
      "seg = (acc @ [c]) @ taken" "cs = taken @ rest" "cont rest = Some r" by blast
    then have "seg = acc @ (c # taken) \<and> c # cs = (c # taken) @ rest \<and> cont rest = Some r"
      by simp
    then show ?thesis by blast
  next
    case False
    with Cons.prems have "cont (c # cs) = Some r" "seg = acc"
      by (auto split: option.splits if_splits)
    then have "seg = acc @ [] \<and> c # cs = [] @ (c # cs) \<and> cont (c # cs) = Some r" by simp
    then show ?thesis by blast
  qed
qed

lemma try_alts_sound:
  "try_alts ic alts cont s = Some (seg, r) \<Longrightarrow> \<exists>rest. s = seg @ rest \<and> cont rest = Some r"
proof (induction alts)
  case Nil
  then show ?case by simp
next
  case (Cons a as)
  show ?case
  proof (cases "lit_prefix ic a s \<and> cont (drop (length a) s) \<noteq> None")
    case True
    with Cons.prems have "seg = take (length a) s" "cont (drop (length a) s) = Some r"
      by auto
    then have "s = seg @ drop (length a) s \<and> cont (drop (length a) s) = Some r" by simp
    then show ?thesis by blast
  next
    case False
    with Cons.prems have "try_alts ic as cont s = Some (seg, r)"
      by (auto split: option.splits if_splits)
    then show ?thesis by (rule Cons.IH)
  qed
qed

lemma at_end_suffix: "at_end (xs @ rest) \<Longrightarrow> at_end rest"
  by (cases xs) (auto simp: at_end_def)

lemma rmatch_sound:
  "rmatch its s = Some segs \<Longrightarrow>
   list_all2 seg_fits its segs \<and>
   (\<exists>rest. s = concat segs @ rest \<and> (Eol \<in> set its \<longrightarrow> at_end rest))"
proof (induction its arbitrary: s segs)
  case Nil
  then show ?case by simp
next
  case (Cons it its)
  have step: "list_all2 seg_fits (it # its) (seg # segs') \<and>
      (\<exists>rest. s = concat (seg # segs') @ rest \<and> (Eol \<in> set (it # its) \<longrightarrow> at_end rest))"
    if "s = seg @ s'" "rmatch its s' = Some segs'" "seg_fits it seg" "it = Eol \<longrightarrow> at_end s'"
    for seg s' segs'
  proof -
    from Cons.IH [OF that(2)] obtain rest where
      r: "list_all2 seg_fits its segs'" "s' = concat segs' @ rest" "Eol \<in> set its \<longrightarrow> at_end rest"
      by blast
    have "it = Eol \<longrightarrow> at_end rest"
      using that(4) r(2) at_end_suffix by blast
    then show ?thesis using r that by auto
  qed
  show ?case
  proof (cases it)
    case (Single k)
    with Cons.prems obtain c cs segs' where
      "s = c # cs" "rmatch its cs = Some segs'" "segs = [c] # segs'"
      by (auto simp: first_char_def split: list.splits if_splits)
    then show ?thesis using step [of "[c]" cs segs'] Single by simp
  next
    case (Many k)
    with Cons.prems obtain seg segs' where
      g: "greedy_rep k (rmatch its) [] s = Some (seg, segs')" "segs = seg # segs'"
      by (auto simp: cons_seg_def)
    from greedy_rep_sound [OF g(1)] obtain rest where "s = seg @ rest" "rmatch its rest = Some segs'"
      by auto
    then show ?thesis using step [of seg rest segs'] Many g(2) by simp
  next
    case (Many1 k)
    with Cons.prems obtain c cs seg segs' where
      g: "s = c # cs" "greedy_rep k (rmatch its) [c] cs = Some (seg, segs')" "segs = seg # segs'"
      by (auto simp: first_char_def cons_seg_def split: list.splits if_splits)
    from greedy_rep_sound [OF g(2)] obtain taken rest where
      "seg = [c] @ taken" "cs = taken @ rest" "rmatch its rest = Some segs'"
      by blast
    then show ?thesis using step [of seg rest segs'] Many1 g by simp
  next
    case (Few k)
    with Cons.prems obtain seg segs' where
      g: "lazy_rep k (rmatch its) [] s = Some (seg, segs')" "segs = seg # segs'"
      by (auto simp: cons_seg_def)
    from lazy_rep_sound [OF g(1)] obtain rest where "s = seg @ rest" "rmatch its rest = Some segs'"
      by auto
    then show ?thesis using step [of seg rest segs'] Few g(2) by simp
  next
    case (Few1 k)
    with Cons.prems obtain c cs seg segs' where
      g: "s = c # cs" "lazy_rep k (rmatch its) [c] cs = Some (seg, segs')" "segs = seg # segs'"
      by (auto simp: first_char_def cons_seg_def split: list.splits if_splits)
    from lazy_rep_sound [OF g(2)] obtain taken rest where
      "seg = [c] @ taken" "cs = taken @ rest" "rmatch its rest = Some segs'"
      by blast
    then show ?thesis using step [of seg rest segs'] Few1 g by simp
  next
    case (Alt ic alts)
    with Cons.prems obtain seg segs' where
      g: "try_alts ic alts (rmatch its) s = Some (seg, segs')" "segs = seg # segs'"
      by (auto simp: cons_seg_def)
    from try_alts_sound [OF g(1)] obtain rest where "s = seg @ rest" "rmatch its rest = Some segs'"
      by auto
    then show ?thesis using step [of seg rest segs'] Alt g(2) by simp
  next
    case Eol
    with Cons.prems obtain segs' where
      "at_end s" "rmatch its s = Some segs'" "segs = [] # segs'"
      by (auto simp: at_end_def split: if_splits)
    then show ?thesis using step [of "[]" s segs'] Eol by simp
  qed
qed

lemma six_items:
  assumes m: "rmatch [i0, i1, i2, i3, i4, Eol] s = Some segs"
    and s: "strip s = s"
    and i0: "seg_fits i0 [] = False"
  shows "\<exists>a b c d e. segs = [a, b, c, d, e, []] \<and> s = a @ b @ c @ d @ e \<and> strip a \<noteq> []
     \<and> (seg_fits i4 [] = False \<longrightarrow> strip e \<noteq> [])"
proof -
  from rmatch_sound [OF m] obtain rest where
    f: "list_all2 seg_fits [i0, i1, i2, i3, i4, Eol] segs" and
    r: "s = concat segs @ rest" "at_end rest"
    by auto
  from f obtain a b c d e where
    segs: "segs = [a, b, c, d, e, []]" and fits: "seg_fits i0 a" "seg_fits i4 e"
    by (auto simp: list_all2_Cons1)
  have a: "a \<noteq> []" using fits(1) i0 by auto
  then have sne: "s \<noteq> []" using r segs by simp
  have ends: "\<not> isspace (hd s)" "\<not> isspace (last s)"
    using strip_self_ends [OF s sne] by auto
  have nl: "isspace (CHR 0x0A)" by (simp add: isspace_def)
  have rest: "rest = []"
  proof (rule ccontr)
    assume "rest \<noteq> []"
    then have "rest = [CHR 0x0A]" using r(2) by (simp add: at_end_def)
    then have "last s = CHR 0x0A" using r(1) by simp
    then show False using ends(2) nl by simp
  qed
  have "hd s = hd a" using r(1) segs a by simp
  then have "hd a \<in> set a" "\<not> isspace (hd a)" using a ends(1) by auto
  then have sa: "strip a \<noteq> []" by (rule strip_nonempty)
  have se: "strip e \<noteq> []" if "seg_fits i4 [] = False"
  proof -
    have e: "e \<noteq> []" using fits(2) that by auto
    then have "last s = last e" using r(1) segs rest by simp
    then have "last e \<in> set e" "\<not> isspace (last e)" using e ends(2) by auto
    then show ?thesis by (rule strip_nonempty)
  qed
  show ?thesis using segs r(1) rest sa se by simp
qed

lemma re_match_sides:
  assumes p: "p \<in> set patterns" and s: "strip s = s" and m: "re_match p s = Some gs"
  shows "\<exists>g0 g1. gs = [g0, g1] \<and> strip g0 \<noteq> [] \<and> (p \<noteq> quote_pattern \<longrightarrow> strip g1 \<noteq> [])"
proof -
  obtain segs where segs: "rmatch (fst p) s = Some segs" "gs = map (\<lambda>i. segs ! i) (snd p)"
    using m by (auto simp: re_match_def)
  consider d where "p = sep_pattern d" | "p = by_pattern" | "p = quote_pattern"
    using p by (auto simp: patterns_def)
  then show ?thesis
  proof cases
    case 1
    from six_items [of "Few1 Dot" "Many Space" "Single (Chr d)" "Many Space" "Many1 Dot" s segs]
    show ?thesis using segs s 1 by (auto simp: sep_pattern_def)
  next
    case 2
    from six_items [of "Few1 Dot" "Many1 Space" "Alt True [''by'']" "Many1 Space" "Many1 Dot" s segs]
    show ?thesis using segs s 2 by (auto simp: by_pattern_def)
  next
    case 3
    from six_items [of "Few1 Dot" "Many Space" "Single (Chr (CHR 0x22))" "Few1 Dot"
        "Single (Chr (CHR 0x22))" s segs]
    show ?thesis using segs s 3 by (auto simp: quote_pattern_def)
  qed
qed

lemma try_patterns_first:
  "i < length ps \<Longrightarrow> re_match (ps ! i) t = Some [g0, g1] \<Longrightarrow>
   \<forall>j<i. re_match (ps ! j) t = None \<Longrightarrow>
   try_patterns ps t =
     (if has_by (ps ! i) then Some (strip g1, strip g0) else Some (strip g0, strip g1))"
proof (induction ps arbitrary: i)
  case Nil
  then show ?case by simp
next
  case (Cons p ps)
  show ?case
  proof (cases i)
    case 0
    with Cons.prems show ?thesis by simp
  next
    case (Suc k)
    with Cons.prems have "re_match p t = None" by auto
    moreover have "try_patterns ps t =
       (if has_by (ps ! k) then Some (strip g1, strip g0) else Some (strip g0, strip g1))"
      using Cons.prems Suc by (intro Cons.IH) auto
    ultimately show ?thesis using Suc by simp
  qed
qed

lemma try_patterns_none:
  "\<forall>p\<in>set ps. re_match p t = None \<Longrightarrow> try_patterns ps t = None"
  by (induction ps) auto

lemma try_patterns_some:
  "try_patterns ps t = Some r \<Longrightarrow>
   \<exists>i g0 g1. i < length ps \<and> re_match (ps ! i) t = Some [g0, g1] \<and>
      (\<forall>j<i. re_match (ps ! j) t = None \<or> (\<exists>gs. re_match (ps ! j) t = Some gs \<and> length gs \<noteq> 2)) \<and>
      r = (if has_by (ps ! i) then (strip g1, strip g0) else (strip g0, strip g1))"
proof (induction ps)
  case Nil
  then show ?case by simp
next
  case (Cons p ps)
  show ?case
  proof (cases "\<exists>g0 g1. re_match p t = Some [g0, g1]")
    case True
    then obtain g0 g1 where g: "re_match p t = Some [g0, g1]" by blast
    with Cons.prems have "r = (if has_by p then (strip g1, strip g0) else (strip g0, strip g1))"
      by (auto split: if_splits)
    then have "0 < length (p # ps) \<and> re_match ((p # ps) ! 0) t = Some [g0, g1] \<and>
      (\<forall>j<0. re_match ((p # ps) ! j) t = None \<or> (\<exists>gs. re_match ((p # ps) ! j) t = Some gs \<and> length gs \<noteq> 2)) \<and>
      r = (if has_by ((p # ps) ! 0) then (strip g1, strip g0) else (strip g0, strip g1))"
      using g by simp
    then show ?thesis by blast
  next
    case False
    then have skip: "re_match p t = None \<or> (\<exists>gs. re_match p t = Some gs \<and> length gs \<noteq> 2)"
      by (cases "re_match p t") (auto simp: length_Suc_conv numeral_2_eq_2)
    have "try_patterns ps t = Some r"
      using Cons.prems False
      by (auto split: option.splits list.splits)
    from Cons.IH [OF this] obtain i g0 g1 where
      i: "i < length ps" "re_match (ps ! i) t = Some [g0, g1]"
      "\<forall>j<i. re_match (ps ! j) t = None \<or> (\<exists>gs. re_match (ps ! j) t = Some gs \<and> length gs \<noteq> 2)"
      "r = (if has_by (ps ! i) then (strip g1, strip g0) else (strip g0, strip g1))"
      by blast
    have "\<forall>j<Suc i. re_match ((p # ps) ! j) t = None \<or> (\<exists>gs. re_match ((p # ps) ! j) t = Some gs \<and> length gs \<noteq> 2)"
      using i(3) skip by (auto simp: less_Suc_eq_0_disj)
    then have "Suc i < length (p # ps) \<and> re_match ((p # ps) ! Suc i) t = Some [g0, g1] \<and>
      (\<forall>j<Suc i. re_match ((p # ps) ! j) t = None \<or> (\<exists>gs. re_match ((p # ps) ! j) t = Some gs \<and> length gs \<noteq> 2)) \<and>
      r = (if has_by ((p # ps) ! Suc i) then (strip g1, strip g0) else (strip g0, strip g1))"
      using i by simp
    then show ?thesis by blast
  qed
qed

lemma has_by_patterns: "i < length patterns \<Longrightarrow> has_by (patterns ! i) = (i = 2)"
proof -
  assume "i < length patterns"
  then have "i = 0 \<or> i = 1 \<or> i = 2 \<or> i = 3 \<or> i = 4"
    by (auto simp: patterns_def)
  then show ?thesis
    by (auto simp: patterns_def has_by_def sep_pattern_def by_pattern_def quote_pattern_def)
qed

lemma quote_pattern_last: "i < length patterns \<Longrightarrow> (patterns ! i = quote_pattern) = (i = 4)"
proof -
  assume "i < length patterns"
  then have "i = 0 \<or> i = 1 \<or> i = 2 \<or> i = 3 \<or> i = 4"
    by (auto simp: patterns_def)
  then show ?thesis
    by (auto simp: patterns_def sep_pattern_def by_pattern_def quote_pattern_def)
qed

lemma clean_text_stripped: "strip (clean_text label) = clean_text label"
  by (simp add: clean_text_def Let_def strip_idem)

subsection \<open>Suffixes of channel names\<close>

lemma startswith_append: "startswith s (p @ q) \<Longrightarrow> startswith s p"
  by (induction s p rule: startswith.induct) auto

lemma startswith_same: "startswith (p @ s) (p @ q) = startswith s q"
  by (induction p) auto

lemma endswith_longer: "endswith s (p @ t) \<Longrightarrow> endswith s t"
  unfolding endswith_def by (simp add: startswith_append)

lemma endswith_append_same: "endswith (x @ s) (p @ s) = endswith x p"
  unfolding endswith_def by (simp add: startswith_same)

lemma endswith_space: "strip x = x \<Longrightarrow> \<not> endswith x '' ''"
proof
  assume s: "strip x = x" and e: "endswith x '' ''"
  then obtain c cs where r: "rev x = c # cs" "c = CHR '' ''"
    by (cases "rev x") (auto simp: endswith_def)
  then have "x \<noteq> []" "last x = CHR '' ''" by (auto simp: last_rev [symmetric] simp del: last_rev)
  moreover have "isspace (CHR '' '')" by (simp add: isspace_def)
  ultimately show False using strip_self_ends [OF s] by auto
qed

lemma remove_suffix_fixed: "\<not> endswith c t \<Longrightarrow> remove_suffix c t = c"
  using endswith_longer [of c "'' ''" t] by (auto simp: remove_suffix_def)

lemma remove_suffix_bare:
  assumes "\<not> endswith x '' ''" "t \<noteq> []"
  shows "remove_suffix (x @ t) t = x"
proof -
  have "\<not> endswith (x @ t) ('' '' @ t)"
    using assms(1) endswith_append_same [of x t "'' ''"] by simp
  moreover have "endswith (x @ t) t"
    using endswith_append_same [of x t "[]"] by (simp add: endswith_def)
  ultimately show ?thesis using assms(2) by (simp add: remove_suffix_def drop_last_def)
qed

lemma remove_suffix_spaced:
  "remove_suffix (x @ '' '' @ t) t = x"
proof -
  have "endswith (x @ '' '' @ t) ('' '' @ t)"
    using endswith_append_same [of x "'' '' @ t" "[]"] by (simp add: endswith_def)
  then show ?thesis by (simp add: remove_suffix_def drop_last_def)
qed

lemma startswith_take: "startswith s p \<Longrightarrow> take (length p) s = p"
  by (induction s p rule: startswith.induct) auto

lemma endswith_last2:
  assumes "endswith y t" "2 \<le> length t"
  shows "take 2 (rev y) = take 2 (rev t)"
proof -
  have "take (length (rev t)) (rev y) = rev t"
    using assms(1) unfolding endswith_def by (rule startswith_take)
  then have "take 2 (take (length t) (rev y)) = take 2 (rev t)" by simp
  then show ?thesis using assms(2) by (simp add: min_def)
qed

lemma suffixes_last2: "distinct (map (\<lambda>t. take 2 (rev t)) suffixes_to_remove)"
  by (simp add: suffixes_to_remove_def)

lemma suffixes_long: "t \<in> set suffixes_to_remove \<Longrightarrow> 2 \<le> length t"
  by (auto simp: suffixes_to_remove_def)

lemma other_suffix:
  assumes s: "s \<in> set suffixes_to_remove" and t: "t \<in> set suffixes_to_remove" and ne: "t \<noteq> s"
  shows "\<not> endswith (x @ s) t"
proof
  assume "endswith (x @ s) t"
  then have "take 2 (rev (x @ s)) = take 2 (rev t)"
    using suffixes_long [OF t] by (rule endswith_last2)
  then have "take 2 (rev s) = take 2 (rev t)"
    using suffixes_long [OF s] by simp
  moreover have "inj_on (\<lambda>t. take 2 (rev t)) (set suffixes_to_remove)"
    using suffixes_last2 by (simp add: distinct_map)
  ultimately have "s = t" using s t by (auto dest: inj_onD)
  then show False using ne by simp
qed

lemma foldl_fixed: "\<forall>t\<in>set ts. f x t = x \<Longrightarrow> foldl f x ts = x"
  by (induction ts) auto

lemma foldl_once:
  "s \<in> set ts \<Longrightarrow> \<forall>t\<in>set ts. t \<noteq> s \<longrightarrow> f y t = y \<Longrightarrow> f y s = x \<Longrightarrow>
   \<forall>t\<in>set ts. f x t = x \<Longrightarrow> foldl f y ts = x"
proof (induction ts)
  case Nil
  then show ?case by simp
next
  case (Cons t ts)
  show ?case
  proof (cases "t = s")
    case True
    then show ?thesis using Cons.prems foldl_fixed [of ts f x] by simp
  next
    case False
    then have "f y t = y" "s \<in> set ts" using Cons.prems by auto
    then show ?thesis using Cons by simp
  qed
qed

lemma length_remove_suffix: "length (remove_suffix c t) \<le> length c"
  by (simp add: remove_suffix_def drop_last_def)

lemma length_remove_suffix_less:
  "t \<noteq> [] \<Longrightarrow> endswith c t \<Longrightarrow> length (remove_suffix c t) < length c"
proof -
  assume t: "t \<noteq> []" and e: "endswith c t"
  have "c \<noteq> []" using t e by (cases "rev t") (auto simp: endswith_def)
  then show ?thesis using t e by (auto simp: remove_suffix_def drop_last_def)
qed

lemma length_foldl_remove: "length (foldl remove_suffix c ts) \<le> length c"
proof (induction ts arbitrary: c)
  case Nil
  then show ?case by simp
next
  case (Cons t ts)
  have "length (foldl remove_suffix (remove_suffix c t) ts) \<le> length (remove_suffix c t)"
    by (rule Cons.IH)
  then show ?case using length_remove_suffix [of c t] by simp
qed

lemma length_foldl_remove_less:
  "[] \<notin> set ts \<Longrightarrow> \<exists>t\<in>set ts. endswith c t \<Longrightarrow> length (foldl remove_suffix c ts) < length c"
proof (induction ts arbitrary: c)
  case Nil
  then show ?case by simp
next
  case (Cons t ts)
  show ?case
  proof (cases "endswith c t")
    case True
    then have "length (remove_suffix c t) < length c"
      using Cons.prems(1) by (intro length_remove_suffix_less) auto
    then show ?thesis using length_foldl_remove [of "remove_suffix c t" ts] by simp
  next
    case False
    then have "remove_suffix c t = c" by (rule remove_suffix_fixed)
    moreover have "\<exists>t\<in>set ts. endswith c t" using Cons.prems(2) False by auto
    ultimately show ?thesis using Cons.IH [of c] Cons.prems(1) by simp
  qed
qed

lemma length_strip: "length (strip s) \<le> length s"
proof -
  have "length (strip s) \<le> length (dropWhile isspace s)"
    unfolding strip_def by (simp add: length_dropWhile_le order_trans [OF length_dropWhile_le])
  also have "\<dots> \<le> length s" by (rule length_dropWhile_le)
  finally show ?thesis .
qed

subsection \<open>TitleParser\<close>

text \<open>
  C2, as the code has it. \<open>parse_title\<close> returns the trimmed captures of the first
  pattern, in order, that matches the cleaned label (the \<^verbatim>\<open>by\<close> pattern with its sides
  swapped); no match is rejected afterwards for a side that is empty after trimming.
  Each of the first four patterns leaves both sides non-empty after trimming. The
  quoted pattern leaves its first side non-empty; its second side may be blank.
\<close>

theorem parse_title_first_match:
  assumes i: "i < length patterns"
    and m: "re_match (patterns ! i) (clean_text label) = Some gs"
    and first: "\<forall>j<i. re_match (patterns ! j) (clean_text label) = None"
  shows "\<exists>g0 g1. gs = [g0, g1]
     \<and> parse_title label = (if i = 2 then (strip g1, strip g0) else (strip g0, strip g1))
     \<and> strip g0 \<noteq> [] \<and> (i < 4 \<longrightarrow> strip g1 \<noteq> [])"
proof -
  have p: "patterns ! i \<in> set patterns" using i by simp
  from re_match_sides [OF p clean_text_stripped m] obtain g0 g1 where
    g: "gs = [g0, g1]" "strip g0 \<noteq> []" "patterns ! i \<noteq> quote_pattern \<longrightarrow> strip g1 \<noteq> []"
    by blast
  have "try_patterns patterns (clean_text label) =
     (if has_by (patterns ! i) then Some (strip g1, strip g0) else Some (strip g0, strip g1))"
    using i m first g(1) by (intro try_patterns_first) auto
  then have "parse_title label = (if i = 2 then (strip g1, strip g0) else (strip g0, strip g1))"
    using has_by_patterns [OF i] by (simp add: parse_title_def Let_def)
  moreover have "i < 4 \<longrightarrow> strip g1 \<noteq> []"
    using g(3) quote_pattern_last [OF i] by auto
  ultimately show ?thesis using g by blast
qed

theorem parse_title_first_match_witness:
  "re_match (patterns ! 2) (clean_text ''Imagine by John Lennon'') = Some [''Imagine'', ''John Lennon'']
   \<and> re_match (patterns ! 0) (clean_text ''Imagine by John Lennon'') = None
   \<and> re_match (patterns ! 1) (clean_text ''Imagine by John Lennon'') = None
   \<and> parse_title ''Imagine by John Lennon'' = (''John Lennon'', ''Imagine'')"
proof -
  have m: "re_match (patterns ! 2) (clean_text ''Imagine by John Lennon'')
      = Some [''Imagine'', ''John Lennon'']"
    by code_simp
  have n0: "re_match (patterns ! 0) (clean_text ''Imagine by John Lennon'') = None"
    by code_simp
  have n1: "re_match (patterns ! 1) (clean_text ''Imagine by John Lennon'') = None"
    by code_simp
  have first: "\<forall>j<2. re_match (patterns ! j) (clean_text ''Imagine by John Lennon'') = None"
    using n0 n1 by (auto simp: less_2_cases_iff)
  have i: "2 < length patterns"
    by (simp add: patterns_def)
  have s: "strip ''John Lennon'' = ''John Lennon''" "strip ''Imagine'' = ''Imagine''"
    by code_simp+
  from parse_title_first_match [OF i m first]
  have "parse_title ''Imagine by John Lennon'' = (''John Lennon'', ''Imagine'')"
    using s by auto
  then show ?thesis using m n0 n1 by blast
qed

text \<open>
  C2, as the specification has it, fails: on the label \<^verbatim>\<open>A " "\<close> the quoted pattern
  matches with a blank second side, and the pair with the empty title is returned.
\<close>

theorem parse_title_quoted_blank:
  "re_match quote_pattern (clean_text (''A '' @ dq @ '' '' @ dq)) = Some [''A'', '' '']
   \<and> parse_title (''A '' @ dq @ '' '' @ dq) = (''A'', [])"
  by code_simp

text \<open>
  C3, as the code has it. The title is not empty when the cleaned label is not empty
  and the quoted pattern does not match it; and when no pattern matches, the whole
  cleaned label is the title and the artist is empty.
\<close>

theorem parse_title_nonempty_title:
  "(clean_text label \<noteq> [] \<and> re_match quote_pattern (clean_text label) = None
      \<longrightarrow> snd (parse_title label) \<noteq> [])
   \<and> ((\<forall>p\<in>set patterns. re_match p (clean_text label) = None)
      \<longrightarrow> parse_title label = ([], clean_text label))"
proof (intro conjI impI)
  assume "\<forall>p\<in>set patterns. re_match p (clean_text label) = None"
  then show "parse_title label = ([], clean_text label)"
    by (simp add: parse_title_def Let_def try_patterns_none)
next
  assume a: "clean_text label \<noteq> [] \<and> re_match quote_pattern (clean_text label) = None"
  let ?t = "clean_text label"
  show "snd (parse_title label) \<noteq> []"
  proof (cases "try_patterns patterns ?t")
    case None
    then show ?thesis using a by (simp add: parse_title_def Let_def)
  next
    case (Some r)
    from try_patterns_some [OF Some] obtain i g0 g1 where
      i: "i < length patterns" "re_match (patterns ! i) ?t = Some [g0, g1]"
      "r = (if has_by (patterns ! i) then (strip g1, strip g0) else (strip g0, strip g1))"
      by blast
    have p: "patterns ! i \<in> set patterns" using i(1) by simp
    have nq: "patterns ! i \<noteq> quote_pattern" using i(2) a by auto
    from re_match_sides [OF p clean_text_stripped i(2)] nq
    have "strip g0 \<noteq> []" "strip g1 \<noteq> []" by auto
    then have "snd r \<noteq> []" using i(3) by simp
    then show ?thesis using Some by (simp add: parse_title_def Let_def)
  qed
qed

theorem parse_title_nonempty_title_witness:
  "clean_text ''Hello'' \<noteq> [] \<and> re_match quote_pattern (clean_text ''Hello'') = None
   \<and> snd (parse_title ''Hello'') \<noteq> [] \<and> parse_title ''Hello'' = ([], clean_text ''Hello'')"
proof -
  have c: "clean_text ''Hello'' \<noteq> []"
    by code_simp
  have q: "re_match quote_pattern (clean_text ''Hello'') = None"
    by code_simp
  have n: "\<forall>p\<in>set patterns. re_match p (clean_text ''Hello'') = None"
    by code_simp
  show ?thesis
    using parse_title_nonempty_title [of "''Hello''"] c q n by blast
qed

text \<open>
  C3, as the specification has it, fails: a label that is only decoration is not
  empty, its cleaned text is, and so is its title.
\<close>

theorem parse_title_decoration_only:
  "''[Official Video]'' \<noteq> [] \<and> snd (parse_title ''[Official Video]'') = []"
  by code_simp

subsection \<open>Channel names\<close>

text \<open>
  C4, as the code has it. A token at the end of a channel name is removed whether a
  space precedes it or not: the form with the space is tested first and takes the
  space along, the bare form is tested otherwise. For a text \<open>x\<close> without outer
  whitespace that does not itself end in a token, both \<open>x\<close> followed by the token and
  \<open>x\<close> followed by a space and the token are cleaned to \<open>x\<close>.
\<close>

theorem clean_channel_name_strips_token:
  assumes s: "s \<in> set suffixes_to_remove"
    and x: "strip x = x"
    and none: "\<forall>t\<in>set suffixes_to_remove. \<not> endswith x t"
  shows "clean_channel_name (x @ s) = x \<and> clean_channel_name (x @ '' '' @ s) = x"
proof -
  have ne: "s \<noteq> []" using s by (auto simp: suffixes_to_remove_def)
  have fixed: "\<forall>t\<in>set suffixes_to_remove. remove_suffix x t = x"
    using none by (simp add: remove_suffix_fixed)
  have others: "\<forall>t\<in>set suffixes_to_remove. t \<noteq> s \<longrightarrow> remove_suffix (y @ s) t = y @ s" for y
    using s by (simp add: other_suffix remove_suffix_fixed)
  have "foldl remove_suffix (x @ s) suffixes_to_remove = x"
    using s others [of x] remove_suffix_bare [OF endswith_space [OF x] ne] fixed
    by (rule foldl_once)
  moreover have "foldl remove_suffix (x @ '' '' @ s) suffixes_to_remove = x"
    using s others [of "x @ '' ''"] remove_suffix_spaced [of x s] fixed
    by (intro foldl_once [where s = s]) auto
  ultimately show ?thesis using x ne by (simp add: clean_channel_name_def)
qed

theorem clean_channel_name_strips_token_witness:
  "''TV'' \<in> set suffixes_to_remove \<and> strip ''A'' = ''A''
   \<and> filter (endswith ''A'') suffixes_to_remove = []
   \<and> clean_channel_name (''A'' @ ''TV'') = ''A''
   \<and> clean_channel_name (''A'' @ '' '' @ ''TV'') = ''A''"
proof -
  have s: "''TV'' \<in> set suffixes_to_remove"
    by (simp add: suffixes_to_remove_def)
  have x: "strip ''A'' = ''A''"
    by code_simp
  have f: "filter (endswith ''A'') suffixes_to_remove = []"
    by code_simp
  then have none: "\<forall>t\<in>set suffixes_to_remove. \<not> endswith ''A'' t"
    by (simp add: filter_empty_conv)
  show ?thesis
    using clean_channel_name_strips_token [OF s x none] s x f by blast
qed

text \<open>
  C4, as the specification has it, fails: the bare \<^verbatim>\<open>TV\<close> at the end of \<^verbatim>\<open>ATV\<close> is
  removed.
\<close>

theorem clean_channel_name_ATV:
  "clean_channel_name ''ATV'' \<noteq> ''ATV'' \<and> clean_channel_name ''ATV'' = ''A''"
  by code_simp

text \<open>
  C5, as the code has it. The cleaner passes once over its list of tokens, so cleaning
  a cleaned name again changes nothing exactly when the cleaned name does not end in
  a token any more.
\<close>

theorem clean_channel_name_idempotent_iff:
  "(clean_channel_name (clean_channel_name p) = clean_channel_name p)
   = (\<forall>t\<in>set suffixes_to_remove. \<not> endswith (clean_channel_name p) t)"
proof -
  define q where "q = clean_channel_name p"
  have q: "strip q = q"
    unfolding q_def
    by (cases "p = []") (simp_all add: clean_channel_name_def strip_idem, simp add: strip_def)
  have "(clean_channel_name q = q) = (\<forall>t\<in>set suffixes_to_remove. \<not> endswith q t)"
  proof
    assume idem: "clean_channel_name q = q"
    show "\<forall>t\<in>set suffixes_to_remove. \<not> endswith q t"
    proof (rule ccontr)
      assume "\<not> (\<forall>t\<in>set suffixes_to_remove. \<not> endswith q t)"
      then obtain t where t: "t \<in> set suffixes_to_remove" "endswith q t" by blast
      have "[] \<notin> set suffixes_to_remove" by (simp add: suffixes_to_remove_def)
      then have "length (foldl remove_suffix q suffixes_to_remove) < length q"
        using t by (intro length_foldl_remove_less) auto
      then have less: "length (strip (foldl remove_suffix q suffixes_to_remove)) < length q"
        using length_strip [of "foldl remove_suffix q suffixes_to_remove"] by simp
      then have "q \<noteq> []" by auto
      then have "length (clean_channel_name q) < length q"
        using less by (simp add: clean_channel_name_def)
      then show False using idem by simp
    qed
  next
    assume "\<forall>t\<in>set suffixes_to_remove. \<not> endswith q t"
    then have "foldl remove_suffix q suffixes_to_remove = q"
      by (intro foldl_fixed) (simp add: remove_suffix_fixed)
    then show "clean_channel_name q = q"
      using q by (simp add: clean_channel_name_def strip_def)
  qed
  then show ?thesis by (simp only: q_def)
qed

theorem clean_channel_name_idempotent_iff_witness:
  "filter (endswith (clean_channel_name ''Adele VEVO'')) suffixes_to_remove = []
   \<and> clean_channel_name (clean_channel_name ''Adele VEVO'') = clean_channel_name ''Adele VEVO''"
proof -
  have f: "filter (endswith (clean_channel_name ''Adele VEVO'')) suffixes_to_remove = []"
    by code_simp
  then have "\<forall>t\<in>set suffixes_to_remove. \<not> endswith (clean_channel_name ''Adele VEVO'') t"
    by (simp add: filter_empty_conv)
  then show ?thesis
    using clean_channel_name_idempotent_iff [of "''Adele VEVO''"] f by blast
qed

text \<open>
  C5, as the specification has it, fails: the first cleaning of \<^verbatim>\<open>X Official Music\<close>
  removes \<^verbatim>\<open>Music\<close>, the second removes \<^verbatim>\<open>Official\<close>.
\<close>

theorem clean_channel_name_not_idempotent:
  "clean_channel_name ''X Official Music'' = ''X Official''
   \<and> clean_channel_name (clean_channel_name ''X Official Music'') = ''X''"
  by code_simp

subsection \<open>FuzzyMatcher\<close>

lemma fl_half: "fl (1 / 2) = 1 / 2"
  by code_simp

text \<open>
  C8. For every confidence \<open>c\<close> and threshold \<open>t\<close>, \<open>is_good_match\<close> accepts exactly when
  \<open>c \<ge> t\<close>; left out, the threshold is 0.5; the boundary is inclusive: 0.5 is accepted
  against 0.5, and the float written \<^verbatim>\<open>0.49999\<close> is not.
\<close>

theorem is_good_match_iff:
  "is_good_match c (Some t) = (c \<ge> t)
   \<and> is_good_match c None = (c \<ge> 1 / 2)
   \<and> is_good_match (fl (1 / 2)) (Some (fl (1 / 2)))
   \<and> \<not> is_good_match (fl (49999 / 100000)) (Some (fl (1 / 2)))"
proof -
  have below: "fl (49999 / 100000) < 1 / 2"
    by code_simp
  have "is_good_match c (Some t) = (c \<ge> t)"
    by (simp add: is_good_match_def)
  moreover have "is_good_match c None = (c \<ge> 1 / 2)"
    by (simp add: is_good_match_def fl_half)
  moreover have "is_good_match (fl (1 / 2)) (Some (fl (1 / 2)))"
    by (simp add: is_good_match_def)
  moreover have "\<not> is_good_match (fl (49999 / 100000)) (Some (fl (1 / 2)))"
    using below by (simp add: is_good_match_def fl_half)
  ultimately show ?thesis
    by blast
qed

subsection \<open>Processing one song\<close>

lemma process_song_found:
  assumes "enhanced_spotify_search sv (working_artist (fst (parse_title t)) ch) (snd (parse_title t)) ch w
      = (Inr (Some tr), w')"
  shows "process_song sv (t, ch) w =
     (score_song sv ((new_song t ch)\<lparr>artist := working_artist (fst (parse_title t)) ch,
        title := snd (parse_title t)\<rparr>) tr, w')"
  using assms by (simp add: process_song_def Let_def split_beta)

lemma process_song_none:
  assumes "enhanced_spotify_search sv (working_artist (fst (parse_title t)) ch) (snd (parse_title t)) ch w
      = (Inr None, w')"
  shows "process_song sv (t, ch) w =
     ((new_song t ch)\<lparr>artist := working_artist (fst (parse_title t)) ch,
        title := snd (parse_title t), error := ''No matches found on Spotify''\<rparr>, w')"
  using assms by (simp add: process_song_def Let_def split_beta)

lemma process_song_raised:
  assumes "enhanced_spotify_search sv (working_artist (fst (parse_title t)) ch) (snd (parse_title t)) ch w
      = (Inl e, w')"
  shows "process_song sv (t, ch) w =
     ((new_song t ch)\<lparr>artist := working_artist (fst (parse_title t)) ch,
        title := snd (parse_title t), error := e\<rparr>, w')"
  using assms by (simp add: process_song_def Let_def split_beta)

lemma successful_tracks_skip:
  "\<not> found s \<Longrightarrow> successful_tracks (before @ s # after) = successful_tracks (before @ after)"
  by (simp add: successful_tracks_def)

text \<open>
  C1, as the code has it. When the search returns a track, the confidence is computed
  from the working artist, which is the cleaned channel name when the parsed artist is
  empty and the channel is not, and the parsed artist otherwise; this working artist is
  also the one recorded on the song. A substituted channel artist therefore takes part
  in the score.
\<close>

theorem process_song_confidence:
  assumes run: "process_song sv (t, ch) w = (s, w2)"
    and hit: "enhanced_spotify_search sv (working_artist (fst (parse_title t)) ch)
        (snd (parse_title t)) ch w = (Inr (Some tr), w')"
    and first: "artist_names tr = spotify_artist # others"
  shows "match_confidence s =
       calculate_match_confidence (fuzz_ratio sv) (working_artist (fst (parse_title t)) ch)
         (snd (parse_title t)) spotify_artist (track_name tr)
     \<and> (fst (parse_title t) = [] \<and> ch \<noteq> [] \<longrightarrow>
          match_confidence s =
            calculate_match_confidence (fuzz_ratio sv) (clean_channel_name ch)
              (snd (parse_title t)) spotify_artist (track_name tr))
     \<and> artist s = working_artist (fst (parse_title t)) ch"
proof -
  have "s = score_song sv ((new_song t ch)\<lparr>artist := working_artist (fst (parse_title t)) ch,
        title := snd (parse_title t)\<rparr>) tr"
    using run process_song_found [OF hit] by simp
  then have "match_confidence s =
       calculate_match_confidence (fuzz_ratio sv) (working_artist (fst (parse_title t)) ch)
         (snd (parse_title t)) spotify_artist (track_name tr)"
    and "artist s = working_artist (fst (parse_title t)) ch"
    using first by (simp_all add: score_song_def Let_def)
  then show ?thesis by (simp add: working_artist_def)
qed

theorem process_song_confidence_witness:
  "enhanced_spotify_search (services_with (answer (Some hey_jude)))
       (working_artist (fst (parse_title ''Hey Jude'')) ''The Beatles'')
       (snd (parse_title ''Hey Jude'')) ''The Beatles'' () = (Inr (Some hey_jude), ())
   \<and> artist_names hey_jude = [''The Beatles'']
   \<and> fst (parse_title ''Hey Jude'') = []
   \<and> match_confidence
        (fst (process_song (services_with (answer (Some hey_jude))) (''Hey Jude'', ''The Beatles'') ()))
      = calculate_match_confidence (fuzz_ratio (services_with (answer (Some hey_jude))))
          (clean_channel_name ''The Beatles'') (snd (parse_title ''Hey Jude'')) ''The Beatles''
          (track_name hey_jude)"
proof -
  let ?sv = "services_with (answer (Some hey_jude))"
  have hit: "enhanced_spotify_search ?sv
       (working_artist (fst (parse_title ''Hey Jude'')) ''The Beatles'')
       (snd (parse_title ''Hey Jude'')) ''The Beatles'' () = (Inr (Some hey_jude), ())"
    by code_simp
  have first: "artist_names hey_jude = [''The Beatles'']"
    by (simp add: hey_jude_def)
  have pa: "fst (parse_title ''Hey Jude'') = []"
    by code_simp
  have run: "process_song ?sv (''Hey Jude'', ''The Beatles'') ()
      = (fst (process_song ?sv (''Hey Jude'', ''The Beatles'') ()),
         snd (process_song ?sv (''Hey Jude'', ''The Beatles'') ()))"
    by (rule surjective_pairing)
  show ?thesis
    using process_song_confidence [OF run hit first] hit first pa by simp
qed

text \<open>
  C1, as the specification has it, fails. The label \<^verbatim>\<open>Hey Jude\<close> has no parsed artist,
  so scoring from the parsed artist would give 0; the song of the channel
  \<^verbatim>\<open>The Beatles\<close> is scored with the channel as artist and gets confidence 1.
\<close>

theorem process_song_scores_channel_artist:
  "fst (parse_title ''Hey Jude'') = []
   \<and> calculate_match_confidence same_ratio (fst (parse_title ''Hey Jude''))
        (snd (parse_title ''Hey Jude'')) ''The Beatles'' ''Hey Jude'' = 0
   \<and> match_confidence
        (fst (process_song (services_with (answer (Some hey_jude))) (''Hey Jude'', ''The Beatles'') ()))
      = 1
   \<and> found
        (fst (process_song (services_with (answer (Some hey_jude))) (''Hey Jude'', ''The Beatles'') ()))"
  by code_simp

text \<open>
  C6, as the code has it. When the search returns nothing, the error of the song is
  the text \<^verbatim>\<open>No matches found on Spotify\<close>, the song is not found and so adds nothing to
  the list of tracks to commit, and its statistics update leaves \<open>total_songs\<close> (set
  to the number of videos before the loop) and \<open>successful_matches\<close> as they are and
  adds one to \<open>not_found\<close> and \<open>errors\<close> taken together.
\<close>

theorem process_song_no_match:
  assumes run: "process_song sv (t, ch) w = (s, w2)"
    and miss: "enhanced_spotify_search sv (working_artist (fst (parse_title t)) ch)
        (snd (parse_title t)) ch w = (Inr None, w')"
  shows "error s = ''No matches found on Spotify''
     \<and> \<not> found s
     \<and> successful_tracks (before @ s # after) = successful_tracks (before @ after)
     \<and> total_songs (count_song s stats) = total_songs stats
     \<and> successful_matches (count_song s stats) = successful_matches stats
     \<and> not_found (count_song s stats) + errors (count_song s stats)
         = not_found stats + errors stats + 1"
proof -
  have s: "s = (new_song t ch)\<lparr>artist := working_artist (fst (parse_title t)) ch,
        title := snd (parse_title t), error := ''No matches found on Spotify''\<rparr>"
    using run process_song_none [OF miss] by simp
  then have e: "error s = ''No matches found on Spotify''" and f: "\<not> found s"
    by (simp_all add: new_song_def)
  have "successful_tracks (before @ s # after) = successful_tracks (before @ after)"
    using f by (rule successful_tracks_skip)
  moreover have "total_songs (count_song s stats) = total_songs stats"
    and "successful_matches (count_song s stats) = successful_matches stats"
    and "not_found (count_song s stats) + errors (count_song s stats)
         = not_found stats + errors stats + 1"
    using f by (simp_all add: count_song_def)
  ultimately show ?thesis using e f by blast
qed

theorem process_song_no_match_witness:
  "enhanced_spotify_search (services_with (answer None))
       (working_artist (fst (parse_title ''Hey Jude'')) ''The Beatles'')
       (snd (parse_title ''Hey Jude'')) ''The Beatles'' () = (Inr None, ())
   \<and> error (fst (process_song (services_with (answer None)) (''Hey Jude'', ''The Beatles'') ()))
      = ''No matches found on Spotify''
   \<and> successful_tracks
        [fst (process_song (services_with (answer None)) (''Hey Jude'', ''The Beatles'') ())] = []"
proof -
  let ?sv = "services_with (answer None)"
  have miss: "enhanced_spotify_search ?sv
       (working_artist (fst (parse_title ''Hey Jude'')) ''The Beatles'')
       (snd (parse_title ''Hey Jude'')) ''The Beatles'' () = (Inr None, ())"
    by code_simp
  have run: "process_song ?sv (''Hey Jude'', ''The Beatles'') ()
      = (fst (process_song ?sv (''Hey Jude'', ''The Beatles'') ()),
         snd (process_song ?sv (''Hey Jude'', ''The Beatles'') ()))"
    by (rule surjective_pairing)
  have empty: "successful_tracks ([] @ []) = []"
    by (simp add: successful_tracks_def)
  show ?thesis
    using process_song_no_match [OF run miss, of "[]" "[]" new_stats] miss empty by simp
qed

text \<open>
  C6, as the specification has it, fails: the error is not the text \<^verbatim>\<open>no match found\<close>,
  and the statistics update counts the song under \<open>errors\<close>, not under \<open>not_found\<close>.
\<close>

theorem no_match_text_differs:
  "fst (enhanced_spotify_search (services_with (answer None)) ''The Beatles'' ''Hey Jude''
          ''The Beatles'' ()) = Inr None
   \<and> error (fst (process_song (services_with (answer None)) (''Hey Jude'', ''The Beatles'') ()))
      \<noteq> ''no match found''
   \<and> not_found (count_song
        (fst (process_song (services_with (answer None)) (''Hey Jude'', ''The Beatles'') ()))
        new_stats) = 0
   \<and> errors (count_song
        (fst (process_song (services_with (answer None)) (''Hey Jude'', ''The Beatles'') ()))
        new_stats) = 1"
  by code_simp

text \<open>
  C10. When the search returns a track and the confidence is below 0.5, the error of
  the song is a non-empty text and the statistics update adds one to \<open>errors\<close> and to
  nothing else. An exception with a non-empty text does the same to the statistics.
\<close>

theorem process_song_low_confidence:
  assumes run: "process_song sv (t, ch) w = (s, w2)"
    and search: "enhanced_spotify_search sv (working_artist (fst (parse_title t)) ch)
        (snd (parse_title t)) ch w = (res, w')"
  shows "(res = Inr (Some tr) \<and> artist_names tr \<noteq> [] \<and> match_confidence s < 1 / 2 \<longrightarrow>
          error s = ''Low confidence match ('' @ format_2f (match_confidence s) @ '')''
          \<and> error s \<noteq> [] \<and> \<not> found s
          \<and> count_song s stats = stats\<lparr>errors := errors stats + 1\<rparr>)
     \<and> (res = Inl e \<and> e \<noteq> [] \<longrightarrow>
          error s = e \<and> \<not> found s \<and> count_song s stats = stats\<lparr>errors := errors stats + 1\<rparr>)"
proof (intro conjI impI)
  assume a: "res = Inr (Some tr) \<and> artist_names tr \<noteq> [] \<and> match_confidence s < 1 / 2"
  then obtain sa others where first: "artist_names tr = sa # others"
    by (cases "artist_names tr") auto
  have hit: "enhanced_spotify_search sv (working_artist (fst (parse_title t)) ch)
        (snd (parse_title t)) ch w = (Inr (Some tr), w')"
    using search a by simp
  have s: "s = score_song sv ((new_song t ch)\<lparr>artist := working_artist (fst (parse_title t)) ch,
        title := snd (parse_title t)\<rparr>) tr"
    using run process_song_found [OF hit] by simp
  have low: "\<not> is_good_match (match_confidence s) None"
    using a by (simp add: is_good_match_def fl_half)
  have c: "match_confidence s = calculate_match_confidence (fuzz_ratio sv)
       (working_artist (fst (parse_title t)) ch) (snd (parse_title t)) sa (track_name tr)"
    using s first by (simp add: score_song_def Let_def)
  show e: "error s = ''Low confidence match ('' @ format_2f (match_confidence s) @ '')''"
    using s first low c by (simp add: score_song_def Let_def)
  then show ne: "error s \<noteq> []" by simp
  show f: "\<not> found s"
    using s first low c by (simp add: score_song_def Let_def)
  show "count_song s stats = stats\<lparr>errors := errors stats + 1\<rparr>"
    using ne f by (simp add: count_song_def)
next
  assume a: "res = Inl e \<and> e \<noteq> []"
  have "s = (new_song t ch)\<lparr>artist := working_artist (fst (parse_title t)) ch,
        title := snd (parse_title t), error := e\<rparr>"
    using run search a process_song_raised [of sv t ch w e w'] by simp
  then show e: "error s = e" and f: "\<not> found s"
    by (simp_all add: new_song_def)
  show "count_song s stats = stats\<lparr>errors := errors stats + 1\<rparr>"
    using e f a by (simp add: count_song_def)
qed

theorem process_song_low_confidence_witness:
  "match_confidence
       (fst (process_song (services_with (answer (Some hey_jude))) (''Yesterday'', ''The Beatles'') ()))
     < 1 / 2
   \<and> error
       (fst (process_song (services_with (answer (Some hey_jude))) (''Yesterday'', ''The Beatles'') ()))
     = ''Low confidence match (0.30)''
   \<and> errors (count_song
       (fst (process_song (services_with (answer (Some hey_jude))) (''Yesterday'', ''The Beatles'') ()))
       new_stats) = 1
   \<and> errors (count_song
       (fst (process_song (services_with (raising ''timed out'')) (''Yesterday'', ''The Beatles'') ()))
       new_stats) = 1"
proof -
  let ?sv = "services_with (answer (Some hey_jude))"
  let ?rv = "services_with (raising ''timed out'')"
  let ?v = "(''Yesterday'', ''The Beatles'')"
  have hit: "enhanced_spotify_search ?sv
       (working_artist (fst (parse_title ''Yesterday'')) ''The Beatles'')
       (snd (parse_title ''Yesterday'')) ''The Beatles'' () = (Inr (Some hey_jude), ())"
    by code_simp
  have raised: "enhanced_spotify_search ?rv
       (working_artist (fst (parse_title ''Yesterday'')) ''The Beatles'')
       (snd (parse_title ''Yesterday'')) ''The Beatles'' () = (Inl ''timed out'', ())"
    by code_simp
  have low: "match_confidence (fst (process_song ?sv ?v ())) < 1 / 2"
    by code_simp
  have shown: "format_2f (match_confidence (fst (process_song ?sv ?v ()))) = ''0.30''"
    by code_simp
  have first: "artist_names hey_jude \<noteq> []"
    by (simp add: hey_jude_def)
  have run: "process_song ?sv ?v () = (fst (process_song ?sv ?v ()), snd (process_song ?sv ?v ()))"
    by (rule surjective_pairing)
  have run2: "process_song ?rv ?v () = (fst (process_song ?rv ?v ()), snd (process_song ?rv ?v ()))"
    by (rule surjective_pairing)
  have one: "errors (new_stats\<lparr>errors := errors new_stats + 1\<rparr>) = 1"
    by (simp add: new_stats_def)
  have "error (fst (process_song ?sv ?v ())) = ''Low confidence match (0.30)''"
    and "count_song (fst (process_song ?sv ?v ())) new_stats
      = new_stats\<lparr>errors := errors new_stats + 1\<rparr>"
    using process_song_low_confidence [OF run hit, of hey_jude new_stats] first low shown
    by simp_all
  moreover have "count_song (fst (process_song ?rv ?v ())) new_stats
      = new_stats\<lparr>errors := errors new_stats + 1\<rparr>"
    using process_song_low_confidence [OF run2 raised, of _ new_stats "''timed out''"]
    by simp
  ultimately show ?thesis using low one by simp
qed

subsection \<open>The run\<close>

lemma process_all_counts:
  "process_all sv vs st w = (songs, st', w') \<Longrightarrow>
   length songs = length vs
   \<and> total_songs st' = total_songs st
   \<and> successful_matches st' = successful_matches st + length (filter found songs)
   \<and> errors st' = errors st + length (filter (\<lambda>s. \<not> found s \<and> error s \<noteq> []) songs)
   \<and> not_found st' = not_found st + length (filter (\<lambda>s. \<not> found s \<and> error s = []) songs)"
proof (induction vs arbitrary: st w songs st' w')
  case Nil
  then show ?case by simp
next
  case (Cons v vs)
  obtain s w1 where s: "process_song sv v w = (s, w1)"
    by (cases "process_song sv v w")
  obtain songs2 st2 w2 where r: "process_all sv vs (count_song s st) w1 = (songs2, st2, w2)"
    by (cases "process_all sv vs (count_song s st) w1")
  have eq: "songs = s # songs2" "st' = st2"
    using Cons.prems s r by simp_all
  from Cons.IH [OF r] show ?case
    unfolding eq by (auto simp: count_song_def)
qed

text \<open>
  C7. For every run that returns, the songs are as many as \<open>total_songs\<close>, each song
  is counted under exactly one of \<open>successful_matches\<close> (found), \<open>errors\<close> (not found,
  with an error text) and \<open>not_found\<close> (not found, without one), and the three counters
  add up to \<open>total_songs\<close>.
\<close>

theorem migrate_playlist_counts:
  assumes "migrate_playlist sv youtube_url playlist_name public w = ((songs, stats), w')"
  shows "length songs = total_songs stats
     \<and> successful_matches stats + not_found stats + errors stats = total_songs stats
     \<and> successful_matches stats = length (filter found songs)
     \<and> errors stats = length (filter (\<lambda>s. \<not> found s \<and> error s \<noteq> []) songs)
     \<and> not_found stats = length (filter (\<lambda>s. \<not> found s \<and> error s = []) songs)"
proof -
  have parts: "length (filter found xs) + length (filter (\<lambda>s. \<not> found s \<and> error s = []) xs)
      + length (filter (\<lambda>s. \<not> found s \<and> error s \<noteq> []) xs) = length xs" for xs :: "song list"
    by (induction xs) auto
  have empty: ?thesis if "songs = []" "stats = new_stats\<lparr>total_songs := 0\<rparr>"
    using that by (simp add: new_stats_def)
  have ns: "new_stats = new_stats\<lparr>total_songs := 0\<rparr>" by (simp add: new_stats_def)
  show ?thesis
  proof (cases "extract_playlist_id youtube_url")
    case None
    then show ?thesis using assms ns by (intro empty) (auto simp: migrate_playlist_def)
  next
    case (Some pid)
    show ?thesis
    proof (cases "pid = []")
      case True
      then show ?thesis using assms Some ns by (intro empty) (auto simp: migrate_playlist_def)
    next
      case False
      obtain res w1 where pv: "playlist_videos sv pid w = (res, w1)"
        by (cases "playlist_videos sv pid w")
      show ?thesis
      proof (cases res)
        case (Inl e)
        then show ?thesis using assms Some False pv ns
          by (intro empty) (auto simp: migrate_playlist_def)
      next
        case (Inr vs)
        show ?thesis
        proof (cases "vs = []")
          case True
          then show ?thesis using assms Some False pv Inr
            by (intro empty) (auto simp: migrate_playlist_def)
        next
          case nonempty: False
          obtain songs2 st2 w2 where
            r: "process_all sv vs (new_stats\<lparr>total_songs := length vs\<rparr>) w1 = (songs2, st2, w2)"
            by (cases "process_all sv vs (new_stats\<lparr>total_songs := length vs\<rparr>) w1")
          have eq: "songs = songs2" "stats = st2"
            using assms Some False pv Inr nonempty r
            by (simp_all add: migrate_playlist_def Let_def)
          from process_all_counts [OF r] parts [of songs2] show ?thesis
            unfolding eq by (simp add: new_stats_def)
        qed
      qed
    qed
  qed
qed

theorem migrate_playlist_counts_witness:
  "total_songs (snd (fst (migrate_playlist (services_with (answer (Some hey_jude)))
       ''https://www.youtube.com/playlist?list=PL1'' ''mine'' True ()))) = 1
   \<and> successful_matches (snd (fst (migrate_playlist (services_with (answer (Some hey_jude)))
       ''https://www.youtube.com/playlist?list=PL1'' ''mine'' True ())))
     + not_found (snd (fst (migrate_playlist (services_with (answer (Some hey_jude)))
       ''https://www.youtube.com/playlist?list=PL1'' ''mine'' True ())))
     + errors (snd (fst (migrate_playlist (services_with (answer (Some hey_jude)))
       ''https://www.youtube.com/playlist?list=PL1'' ''mine'' True ()))) = 1"
proof -
  let ?m = "migrate_playlist (services_with (answer (Some hey_jude)))
       ''https://www.youtube.com/playlist?list=PL1'' ''mine'' True ()"
  have run: "?m = ((fst (fst ?m), snd (fst ?m)), snd ?m)"
    by (simp add: prod_eq_iff)
  have total: "total_songs (snd (fst ?m)) = 1"
    by code_simp
  show ?thesis
    using migrate_playlist_counts [OF run] total by simp
qed

subsection \<open>Adding tracks in batches\<close>

lemma add_tracks_from_trace:
  "add_tracks_from sv pid uris i w = (r, trace, w') \<Longrightarrow>
     (\<forall>k<length trace. fst (trace ! k) = take 100 (drop (i + 100 * k) uris)
        \<and> i + 100 * k < length uris)
   \<and> (\<forall>k. Suc k < length trace \<longrightarrow> snd (trace ! k) = Inr True)
   \<and> (trace \<noteq> [] \<longrightarrow> r = snd (last trace))
   \<and> (trace = [] \<longrightarrow> r = Inr True)
   \<and> (r = Inr True \<longrightarrow> length uris \<le> i + 100 * length trace)"
proof (induction sv pid uris i w arbitrary: r trace w' rule: add_tracks_from.induct)
  case (1 sv pid uris i w)
  show ?case
  proof (cases "i < length uris")
    case False
    then have "r = Inr True" "trace = []"
      using "1.prems" by (simp_all add: add_tracks_from.simps [of sv pid uris i w])
    then show ?thesis using False by simp
  next
    case True
    define batch where "batch = take 100 (drop i uris)"
    obtain result w1 where p: "post_tracks sv pid batch w = (result, w1)"
      by (cases "post_tracks sv pid batch w")
    show ?thesis
    proof (cases "result = Inr True")
      case False
      then have "r = result" "trace = [(batch, result)]"
        using "1.prems" True p
        by (auto simp: add_tracks_from.simps [of sv pid uris i w] batch_def [symmetric])
      then show ?thesis using True False by (simp add: batch_def)
    next
      case ok: True
      obtain r2 trace2 w2 where
        rec: "add_tracks_from sv pid uris (i + 100) w1 = (r2, trace2, w2)"
        by (cases "add_tracks_from sv pid uris (i + 100) w1")
      have eq: "r = r2" "trace = (batch, result) # trace2"
        using "1.prems" True p ok rec
        by (simp_all add: add_tracks_from.simps [of sv pid uris i w] batch_def [symmetric])
      have ih:
        "\<forall>k<length trace2. fst (trace2 ! k) = take 100 (drop (i + 100 + 100 * k) uris)
            \<and> i + 100 + 100 * k < length uris"
        "\<forall>k. Suc k < length trace2 \<longrightarrow> snd (trace2 ! k) = Inr True"
        "trace2 \<noteq> [] \<longrightarrow> r2 = snd (last trace2)"
        "trace2 = [] \<longrightarrow> r2 = Inr True"
        "r2 = Inr True \<longrightarrow> length uris \<le> i + 100 + 100 * length trace2"
        using "1.IH" [OF True batch_def refl p [symmetric] ok rec] by blast+
      have a: "\<forall>k<length trace. fst (trace ! k) = take 100 (drop (i + 100 * k) uris)
            \<and> i + 100 * k < length uris"
      proof (intro allI impI)
        fix k assume k: "k < length trace"
        show "fst (trace ! k) = take 100 (drop (i + 100 * k) uris) \<and> i + 100 * k < length uris"
        proof (cases k)
          case 0
          then show ?thesis using eq True by (simp add: batch_def)
        next
          case (Suc j)
          then have "j < length trace2" using k eq by simp
          then show ?thesis using ih(1) Suc eq by (simp add: add.assoc)
        qed
      qed
      have b: "\<forall>k. Suc k < length trace \<longrightarrow> snd (trace ! k) = Inr True"
      proof (intro allI impI)
        fix k assume k: "Suc k < length trace"
        show "snd (trace ! k) = Inr True"
        proof (cases k)
          case 0
          then show ?thesis using eq ok by simp
        next
          case (Suc j)
          then have "Suc j < length trace2" using k eq by simp
          then show ?thesis using ih(2) Suc eq by simp
        qed
      qed
      have c: "trace \<noteq> [] \<longrightarrow> r = snd (last trace)"
        using eq ih(3) ih(4) ok by (cases "trace2 = []") simp_all
      have d: "r = Inr True \<longrightarrow> length uris \<le> i + 100 * length trace"
        using eq ih(5) by (simp add: add.assoc)
      show ?thesis using a b c d eq by simp
    qed
  qed
qed

lemma concat_batches:
  "\<forall>k<length trace. fst (trace ! k) = take 100 (drop (i + 100 * k) uris) \<Longrightarrow>
   concat (map fst trace) = take (100 * length trace) (drop i uris)"
proof (induction trace arbitrary: i)
  case Nil
  then show ?case by simp
next
  case (Cons e trace)
  have head: "fst e = take 100 (drop i uris)"
    using Cons.prems by (auto dest: spec [of _ 0])
  have "\<forall>k<length trace. fst (trace ! k) = take 100 (drop (i + 100 + 100 * k) uris)"
  proof (intro allI impI)
    fix k assume "k < length trace"
    then have "fst ((e # trace) ! Suc k) = take 100 (drop (i + 100 * Suc k) uris)"
      using Cons.prems by (auto dest: spec [of _ "Suc k"])
    then show "fst (trace ! k) = take 100 (drop (i + 100 + 100 * k) uris)"
      by (simp add: add.assoc)
  qed
  then have "concat (map fst trace) = take (100 * length trace) (drop (i + 100) uris)"
    by (rule Cons.IH)
  then have "concat (map fst (e # trace))
      = take 100 (drop i uris) @ take (100 * length trace) (drop 100 (drop i uris))"
    using head by (simp add: add.commute)
  also have "\<dots> = take (100 + 100 * length trace) (drop i uris)"
    by (simp add: take_add)
  finally show ?case by simp
qed

text \<open>
  C9. The requests of \<open>add_tracks_to_playlist\<close> carry the consecutive batches of 100
  URIs of the list (the last one may be shorter), in order. Every request before the
  last one made has succeeded. The result is \<open>False\<close> exactly when the last request
  made has failed, and \<open>True\<close> exactly when every request made has succeeded. The
  batches sent are together a prefix of the list, and the whole list when the result
  is \<open>True\<close>.
\<close>

theorem add_tracks_to_playlist_batches:
  assumes "add_tracks_to_playlist sv playlist_id track_uris w = (r, trace, w')"
  shows "(\<forall>k<length trace. fst (trace ! k) = take 100 (drop (100 * k) track_uris)
            \<and> fst (trace ! k) \<noteq> [] \<and> length (fst (trace ! k)) \<le> 100)
     \<and> (\<forall>k. Suc k < length trace \<longrightarrow> snd (trace ! k) = Inr True)
     \<and> (r = Inr False) = (trace \<noteq> [] \<and> snd (last trace) = Inr False)
     \<and> (r = Inr True) = (\<forall>e\<in>set trace. snd e = Inr True)
     \<and> concat (map fst trace) = take (100 * length trace) track_uris
     \<and> (r = Inr True \<longrightarrow> concat (map fst trace) = track_uris)"
proof -
  have run: "add_tracks_from sv playlist_id track_uris 0 w = (r, trace, w')"
    using assms by (simp add: add_tracks_to_playlist_def)
  from add_tracks_from_trace [OF run] have
    a: "\<forall>k<length trace. fst (trace ! k) = take 100 (drop (0 + 100 * k) track_uris)
          \<and> 0 + 100 * k < length track_uris" and
    b: "\<forall>k. Suc k < length trace \<longrightarrow> snd (trace ! k) = Inr True" and
    c: "trace \<noteq> [] \<longrightarrow> r = snd (last trace)" and
    d: "trace = [] \<longrightarrow> r = Inr True" and
    e: "r = Inr True \<longrightarrow> length track_uris \<le> 0 + 100 * length trace"
    by blast+
  have batches: "\<forall>k<length trace. fst (trace ! k) = take 100 (drop (100 * k) track_uris)
            \<and> fst (trace ! k) \<noteq> [] \<and> length (fst (trace ! k)) \<le> 100"
    using a by auto
  have cat: "concat (map fst trace) = take (100 * length trace) track_uris"
    using concat_batches [of trace 0 track_uris] a by simp
  have whole: "r = Inr True \<longrightarrow> concat (map fst trace) = track_uris"
    using cat e by simp
  have false_iff: "(r = Inr False) = (trace \<noteq> [] \<and> snd (last trace) = Inr False)"
    using c d by auto
  have true_iff: "(r = Inr True) = (\<forall>e\<in>set trace. snd e = Inr True)"
  proof
    assume t: "r = Inr True"
    show "\<forall>e\<in>set trace. snd e = Inr True"
    proof
      fix x assume "x \<in> set trace"
      then obtain k where k: "k < length trace" "x = trace ! k"
        by (auto simp: in_set_conv_nth)
      show "snd x = Inr True"
      proof (cases "Suc k < length trace")
        case True
        then show ?thesis using b k by simp
      next
        case False
        then have "k = length trace - 1" "trace \<noteq> []"
          using k by auto
        then have "trace \<noteq> []" "x = last trace"
          using k by (simp_all add: last_conv_nth)
        then show ?thesis using c t by simp
      qed
    qed
  next
    assume all: "\<forall>e\<in>set trace. snd e = Inr True"
    show "r = Inr True"
    proof (cases "trace = []")
      case True
      then show ?thesis using d by simp
    next
      case False
      then have "snd (last trace) = Inr True" using all by simp
      then show ?thesis using c False by simp
    qed
  qed
  show ?thesis using batches b false_iff true_iff cat whole by blast
qed

theorem add_tracks_to_playlist_batches_witness:
  "add_tracks_to_playlist (services_with (answer None)) ''p'' (replicate 101 ''u'') ()
     = (Inr True, [(replicate 100 ''u'', Inr True), ([''u''], Inr True)], ())
   \<and> concat (map fst [(replicate 100 ''u'', Inr True :: string + bool), ([''u''], Inr True)])
     = replicate 101 ''u''"
proof -
  have run: "add_tracks_to_playlist (services_with (answer None)) ''p'' (replicate 101 ''u'') ()
     = (Inr True, [(replicate 100 ''u'', Inr True), ([''u''], Inr True)], ())"
    by code_simp
  show ?thesis
    using add_tracks_to_playlist_batches [OF run] run by blast
qed

end
